theory Spec2Isabelle
  imports Complex_Main "HOL-Library.Word"
begin

unbundle bit_operations_syntax

section \<open>Genes and genomes\<close>

text \<open>
  A gene is a record of five fields (\<^verbatim>\<open>struct Gene\<close> of \<^verbatim>\<open>simulator.h\<close>); a genome is a
  \<^verbatim>\<open>std::vector<Gene>\<close>. The declaration of the struct is not part of the two source files,
  so the field types are the widest ones the comparison code is compatible with: unsigned
  numbers for the type tags and the source and sink numbers, a signed number for the weight.
\<close>

record Gene =
  sourceType :: nat
  sourceNum :: nat
  sinkType :: nat
  sinkNum :: nat
  weight :: int

type_synonym Genome = "Gene list"

text \<open>
  Sizes, positions and counts are natural numbers. Where the program computes with them in
  \<^verbatim>\<open>unsigned\<close> variables (the two Hamming functions), the model reduces each result modulo
  \<open>2 ^ 32\<close>, as the 32-bit arithmetic does. The approximate metric converts the two sizes to
  \<^verbatim>\<open>int\<close> and caps them at 20 at once; the model caps the sizes themselves, which is the same
  for every vector of fewer than \<open>2 ^ 31\<close> genes.
\<close>

text \<open>
  \<^verbatim>\<open>analysis.cpp\<close> asserts \<^verbatim>\<open>sizeof(Gene) == 4\<close>, and the two Hamming functions read the
  gene buffer through an \<^verbatim>\<open>unsigned int *\<close>: one 32-bit word per gene. Which bit of the word
  holds which field is decided by the missing declaration and by the compiler, so the raw view
  of a gene is a parameter \<open>raw\<close> of the functions that use it.
\<close>

type_synonym rawView = "Gene \<Rightarrow> 32 word"

definition bytesPerElement :: nat where
  "bytesPerElement = 4"

text \<open>
  One layout used for the worked examples only: the four small fields in the low half-word,
  the weight in the high half-word.
\<close>

definition packGene :: rawView where
  "packGene g =
     word_of_nat (sourceType g mod 2) + 2 * word_of_nat (sourceNum g mod 128)
       + 256 * word_of_nat (sinkType g mod 2) + 512 * word_of_nat (sinkNum g mod 128)
       + 65536 * word_of_int (weight g mod 65536)"

subsection \<open>genesMatch\<close>

definition genesMatch :: "Gene \<Rightarrow> Gene \<Rightarrow> bool" where
  "genesMatch g1 g2 \<longleftrightarrow>
     sinkNum g1 = sinkNum g2
     \<and> sourceNum g1 = sourceNum g2
     \<and> sinkType g1 = sinkType g2
     \<and> sourceType g1 = sourceType g2
     \<and> weight g1 = weight g2"

section \<open>Floating-point values\<close>

text \<open>
  The arithmetic of \<^verbatim>\<open>float\<close> and \<^verbatim>\<open>double\<close> is modelled by exact arithmetic on the reals:
  rounding is not modelled. What is modelled is the part of IEEE 754 that the control flow of
  the program can reach without any rounding: a division whose divisor is zero does not trap,
  it yields an infinity or, for \<open>0 / 0\<close>, a NaN, and every comparison with a NaN is false.
  Signed zeros are not distinguished (every zero divisor of the program is the conversion of
  an unsigned number, hence \<open>+0\<close>).
\<close>

datatype cfloat = Fin real | PInf | NInf | NaN

fun fneg :: "cfloat \<Rightarrow> cfloat" where
  "fneg (Fin x) = Fin (- x)"
| "fneg PInf = NInf"
| "fneg NInf = PInf"
| "fneg NaN = NaN"

fun fadd :: "cfloat \<Rightarrow> cfloat \<Rightarrow> cfloat" where
  "fadd NaN _ = NaN"
| "fadd _ NaN = NaN"
| "fadd (Fin x) (Fin y) = Fin (x + y)"
| "fadd PInf NInf = NaN"
| "fadd NInf PInf = NaN"
| "fadd PInf _ = PInf"
| "fadd NInf _ = NInf"
| "fadd (Fin x) y = y"

definition fsub :: "cfloat \<Rightarrow> cfloat \<Rightarrow> cfloat" where
  "fsub x y = fadd x (fneg y)"

fun fdiv :: "cfloat \<Rightarrow> cfloat \<Rightarrow> cfloat" where
  "fdiv NaN _ = NaN"
| "fdiv _ NaN = NaN"
| "fdiv (Fin x) (Fin y) =
     (if y \<noteq> 0 then Fin (x / y)
      else if x = 0 then NaN
      else if 0 < x then PInf else NInf)"
| "fdiv (Fin x) _ = Fin 0"
| "fdiv PInf (Fin y) = (if 0 \<le> y then PInf else NInf)"
| "fdiv NInf (Fin y) = (if 0 \<le> y then NInf else PInf)"
| "fdiv _ _ = NaN"

text \<open>The comparison \<^verbatim>\<open><\<close>: false as soon as one side is a NaN.\<close>

fun fless :: "cfloat \<Rightarrow> cfloat \<Rightarrow> bool" where
  "fless NaN _ = False"
| "fless _ NaN = False"
| "fless (Fin x) (Fin y) = (x < y)"
| "fless NInf NInf = False"
| "fless NInf _ = True"
| "fless _ NInf = False"
| "fless PInf _ = False"
| "fless (Fin x) PInf = True"

text \<open>\<^verbatim>\<open>std::min(a, b)\<close> is \<^verbatim>\<open>(b < a) ? b : a\<close>.\<close>

definition fmin :: "cfloat \<Rightarrow> cfloat \<Rightarrow> cfloat" where
  "fmin a b = (if fless b a then b else a)"

subsection \<open>The divisions a call performs\<close>

text \<open>
  Which divisions a call performs is a fact about its run, not about its result: a NaN that
  \<^verbatim>\<open>std::min\<close> discards leaves no mark on what is returned. The functions that divide
  therefore return, next to their result, the list of the divisions they performed, in
  order, each as the pair of dividend and divisor. \<open>fdivide\<close> is the division whose divisor may
  be zero; \<open>rdivide\<close> is the division behind a guard, whose quotient is a number.
\<close>

type_synonym division = "real \<times> real"

definition fdivide :: "real \<Rightarrow> real \<Rightarrow> cfloat \<times> division list" where
  "fdivide x y = (fdiv (Fin x) (Fin y), [(x, y)])"

definition rdivide :: "real \<Rightarrow> real \<Rightarrow> real \<times> division list" where
  "rdivide x y = (x / y, [(x, y)])"

section \<open>Errors\<close>

text \<open>
  The program reports a violated precondition with \<^verbatim>\<open>assert\<close>, which ends the process. The
  model takes assertions as enabled and returns the failure as a value: \<open>LengthMismatch\<close> for
  the assertion at the head of the two Hamming functions, \<open>InvalidConfiguration\<close> for the
  \<^verbatim>\<open>assert(false)\<close> in the default branch of the dispatcher.
\<close>

datatype error = LengthMismatch | InvalidConfiguration

section \<open>jaro_winkler_distance\<close>

definition maxNumGenesToCompare :: nat where
  "maxNumGenesToCompare = 20"

definition maxPrefixLength :: nat where
  "maxPrefixLength = 4"

definition winklerScaling :: real where
  "winklerScaling = 1 / 10"

text \<open>
  The inner loop of the matching phase: \<open>j\<close> runs from its start value up to \<open>l\<close> and stops
  at the first position of \<open>s\<close> that matches the gene \<open>ai\<close> and is not yet flagged.
\<close>

function findMatch :: "Gene \<Rightarrow> Genome \<Rightarrow> int list \<Rightarrow> nat \<Rightarrow> nat \<Rightarrow> nat option" where
  "findMatch ai s sflags j l =
     (if j < l then
        (if genesMatch ai (s ! j) \<and> sflags ! j = 0 then Some j
         else findMatch ai s sflags (Suc j) l)
      else None)"
  by pat_completeness auto
termination
  by (relation "measure (\<lambda>(ai, s, sflags, j, l). l - j)") auto

text \<open>
  The outer loop of the matching phase, over the positions \<open>i\<close> of \<open>a\<close>. The state is the two
  flag vectors and the number \<open>m\<close> of matches. The window starts at \<open>max(i - range, 0)\<close>, which
  is the truncating subtraction of \<open>nat\<close>.
\<close>

function matchLoop ::
  "Genome \<Rightarrow> Genome \<Rightarrow> nat \<Rightarrow> nat \<Rightarrow> nat \<Rightarrow> nat \<Rightarrow> int list \<times> int list \<times> nat
     \<Rightarrow> int list \<times> int list \<times> nat" where
  "matchLoop s a sl al rng i (sflags, aflags, m) =
     (if i < al then
        (case findMatch (a ! i) s sflags (i - rng) (min (i + rng + 1) sl) of
           Some j \<Rightarrow> matchLoop s a sl al rng (Suc i) (sflags[j := 1], aflags[i := 1], m + 1)
         | None \<Rightarrow> matchLoop s a sl al rng (Suc i) (sflags, aflags, m))
      else (sflags, aflags, m))"
  by pat_completeness auto
termination
  by (relation "measure (\<lambda>(s, a, sl, al, rng, i, st). al - i)") auto

text \<open>
  The inner loop of the transposition phase: the first flagged position of \<open>s\<close> from \<open>j\<close> on,
  or the value of \<open>j\<close> at which the loop condition \<open>j < sl\<close> fails.
\<close>

function nextFlag :: "int list \<Rightarrow> nat \<Rightarrow> nat \<Rightarrow> nat" where
  "nextFlag sflags j sl =
     (if j < sl then (if sflags ! j = 1 then j else nextFlag sflags (Suc j) sl) else j)"
  by pat_completeness auto
termination
  by (relation "measure (\<lambda>(sflags, j, sl). sl - j)") auto

function transLoop ::
  "Genome \<Rightarrow> Genome \<Rightarrow> int list \<Rightarrow> int list \<Rightarrow> nat \<Rightarrow> nat \<Rightarrow> nat \<Rightarrow> nat \<Rightarrow> nat \<Rightarrow> nat" where
  "transLoop s a sflags aflags sl al i l t =
     (if i < al then
        (if aflags ! i = 1 then
           (let j = nextFlag sflags l sl in
              transLoop s a sflags aflags sl al (Suc i)
                (if j < sl then j + 1 else l)
                (if j < sl \<and> \<not> genesMatch (a ! i) (s ! j) then t + 1 else t))
         else transLoop s a sflags aflags sl al (Suc i) l t)
      else t)"
  by pat_completeness auto
termination
  by (relation "measure (\<lambda>(s, a, sflags, aflags, sl, al, i, l, t). al - i)") auto

text \<open>The prefix loop: the length of the leading run of positionally equal genes.\<close>

function prefixLoop :: "Genome \<Rightarrow> Genome \<Rightarrow> nat \<Rightarrow> nat \<Rightarrow> nat \<Rightarrow> nat" where
  "prefixLoop s a prefixLength i matchingPrefix =
     (if i < prefixLength then
        (if genesMatch (s ! i) (a ! i) then prefixLoop s a prefixLength (Suc i) (matchingPrefix + 1)
         else matchingPrefix)
      else matchingPrefix)"
  by pat_completeness auto
termination
  by (relation "measure (\<lambda>(s, a, prefixLength, i, matchingPrefix). prefixLength - i)") auto

text \<open>
  Every division of this function is guarded (\<open>sl\<close>, \<open>al\<close> and \<open>m\<close> are positive where they
  divide), so its result is a finite number and the model returns a real. Every index the
  loops read lies below the capped length of its genome, hence within the genome and
  within the flag vector. \<open>jaro_winkler_distance_run\<close> is the function with the divisions it
  performs, \<open>jaro_winkler_distance\<close> the score it returns.
\<close>

definition jaro_winkler_distance_run :: "Genome \<Rightarrow> Genome \<Rightarrow> real \<times> division list" where
  "jaro_winkler_distance_run genome1 genome2 =
     (let s = genome1;
          a = genome2;
          sl = min maxNumGenesToCompare (length s);
          al = min maxNumGenesToCompare (length a);
          rng = max sl al div 2 - 1
      in if sl = 0 \<or> al = 0 then (0, [])
         else
           (case matchLoop s a sl al rng 0 (replicate sl 0, replicate al 0, 0) of
              (sflags, aflags, m) \<Rightarrow>
                if m = 0 then (0, [])
                else
                  (let t = transLoop s a sflags aflags sl al 0 0 0 div 2;
                       (q1, d1) = rdivide (real m) (real sl);
                       (q2, d2) = rdivide (real m) (real al);
                       (q3, d3) = rdivide (real_of_int (int m - int t)) (real m);
                       (dw, d4) = rdivide (q1 + q2 + q3) 3;
                       prefixLength = min maxPrefixLength (min sl al);
                       matchingPrefix = prefixLoop s a prefixLength 0 0;
                       winklerBonus = winklerScaling * real matchingPrefix * (1 - dw)
                   in (min 1 (dw + winklerBonus), d1 @ d2 @ d3 @ d4))))"

definition jaro_winkler_distance :: "Genome \<Rightarrow> Genome \<Rightarrow> real" where
  "jaro_winkler_distance genome1 genome2 = fst (jaro_winkler_distance_run genome1 genome2)"

section \<open>The Hamming metrics\<close>

text \<open>\<^verbatim>\<open>__builtin_popcount\<close>: the number of set bits of a 32-bit word.\<close>

definition popcount :: "32 word \<Rightarrow> nat" where
  "popcount w = length (filter (bit w) [0..<32])"

text \<open>
  Both functions compute in \<^verbatim>\<open>unsigned\<close>: the number of elements, the two lengths and the
  running count are reduced modulo \<open>2 ^ 32\<close>. The loop reads both buffers at the positions
  below the size of the first; the assertion before it makes the sizes equal. Its index is
  compared with the size of the vector and is a natural number here, which is exact for
  every vector of fewer than \<open>2 ^ 32\<close> genes; the statements below that depend on the size of
  the genomes carry a smaller bound.
\<close>

definition numElements :: "Genome \<Rightarrow> nat" where
  "numElements genome1 = length genome1 mod 2 ^ 32"

definition lengthBytes :: "Genome \<Rightarrow> nat" where
  "lengthBytes genome1 = numElements genome1 * bytesPerElement mod 2 ^ 32"

definition lengthBits :: "Genome \<Rightarrow> nat" where
  "lengthBits genome1 = lengthBytes genome1 * 8 mod 2 ^ 32"

function bitCountLoop :: "rawView \<Rightarrow> Genome \<Rightarrow> Genome \<Rightarrow> nat \<Rightarrow> nat \<Rightarrow> nat" where
  "bitCountLoop raw genome1 genome2 index bitCount =
     (if index < length genome1 then
        bitCountLoop raw genome1 genome2 (Suc index)
          ((bitCount + popcount (raw (genome1 ! index) XOR raw (genome2 ! index))) mod 2 ^ 32)
      else bitCount)"
  by pat_completeness auto
termination
  by (relation "measure (\<lambda>(raw, genome1, genome2, index, bitCount). length genome1 - index)") auto

text \<open>
  The return statement is \<^verbatim>\<open>1.0 - std::min(1.0, (2.0 * bitCount) / (float)lengthBits)\<close>: the
  product is one of doubles and does not wrap.
\<close>

definition hammingDistanceBits ::
  "rawView \<Rightarrow> Genome \<Rightarrow> Genome \<Rightarrow> error + cfloat \<times> division list" where
  "hammingDistanceBits raw genome1 genome2 =
     (if length genome1 \<noteq> length genome2 then Inl LengthMismatch
      else
        (let bitCount = bitCountLoop raw genome1 genome2 0 0;
             (quotient, ds) = fdivide (2 * real bitCount) (real (lengthBits genome1))
         in Inr (fsub (Fin 1) (fmin (Fin 1) quotient), ds)))"

function byteCountLoop :: "rawView \<Rightarrow> Genome \<Rightarrow> Genome \<Rightarrow> nat \<Rightarrow> nat \<Rightarrow> nat" where
  "byteCountLoop raw genome1 genome2 index byteCount =
     (if index < length genome1 then
        byteCountLoop raw genome1 genome2 (Suc index)
          ((byteCount + (if raw (genome1 ! index) = raw (genome2 ! index) then 1 else 0))
             mod 2 ^ 32)
      else byteCount)"
  by pat_completeness auto
termination
  by (relation "measure (\<lambda>(raw, genome1, genome2, index, byteCount). length genome1 - index)") auto

definition hammingDistanceBytes ::
  "rawView \<Rightarrow> Genome \<Rightarrow> Genome \<Rightarrow> error + cfloat \<times> division list" where
  "hammingDistanceBytes raw genome1 genome2 =
     (if length genome1 \<noteq> length genome2 then Inl LengthMismatch
      else
        (let byteCount = byteCountLoop raw genome1 genome2 0 0;
             (quotient, ds) = fdivide (real byteCount) (real (lengthBytes genome1))
         in Inr (quotient, ds)))"

section \<open>genomeSimilarity\<close>

text \<open>
  The comparison method is the global parameter \<^verbatim>\<open>p.genomeComparisonMethod\<close>; here it is the
  argument \<open>method\<close>. On the branch for genomes of different lengths the larger length is
  positive, so the division of the length ratio is an ordinary one.
  \<open>genomeSimilarity_run\<close> is the function with the divisions it performs, its own and those of
  the metric it calls; \<open>genomeSimilarity\<close> is what it returns, a score or an error.
\<close>

definition genomeSimilarity_run ::
  "rawView \<Rightarrow> nat \<Rightarrow> Genome \<Rightarrow> Genome \<Rightarrow> error + cfloat \<times> division list" where
  "genomeSimilarity_run raw method g1 g2 =
     (if length g1 \<noteq> length g2 then
        (let (similarity, ds) = jaro_winkler_distance_run g1 g2;
             len1 = real (length g1);
             len2 = real (length g2);
             (lengthRatio, dr) = rdivide (min len1 len2) (max len1 len2)
         in Inr (Fin (similarity * (8 / 10) + lengthRatio * (2 / 10)), ds @ dr))
      else if method = 0 then
        (let (similarity, ds) = jaro_winkler_distance_run g1 g2 in Inr (Fin similarity, ds))
      else if method = 1 then hammingDistanceBits raw g1 g2
      else if method = 2 then hammingDistanceBytes raw g1 g2
      else Inl InvalidConfiguration)"

definition genomeSimilarity :: "rawView \<Rightarrow> nat \<Rightarrow> Genome \<Rightarrow> Genome \<Rightarrow> error + cfloat" where
  "genomeSimilarity raw method g1 g2 = map_sum id fst (genomeSimilarity_run raw method g1 g2)"

section \<open>Quantities named by the specification\<close>

text \<open>
  The number of differing bits of two genomes: the population count of the exclusive or of
  corresponding gene words, summed over the positions. The total number of bits:
  \<open>bitsPerGeneWord\<close> for each gene.
\<close>

definition bitsPerGeneWord :: nat where
  "bitsPerGeneWord = 32"

definition differingBits :: "rawView \<Rightarrow> Genome \<Rightarrow> Genome \<Rightarrow> nat" where
  "differingBits raw g1 g2 = sum_list (map (\<lambda>(x, y). popcount (raw x XOR raw y)) (zip g1 g2))"

definition totalBits :: "Genome \<Rightarrow> nat" where
  "totalBits g = length g * bitsPerGeneWord"

text \<open>The number of positions at which the gene words of two genomes are bit-identical.\<close>

definition identicalCount :: "rawView \<Rightarrow> Genome \<Rightarrow> Genome \<Rightarrow> nat" where
  "identicalCount raw g1 g2 = length (filter (\<lambda>(x, y). raw x = raw y) (zip g1 g2))"

section \<open>Example genes\<close>

definition geneA :: Gene where
  "geneA = \<lparr>sourceType = 0, sourceNum = 0, sinkType = 1, sinkNum = 0, weight = 100\<rparr>"

definition geneB :: Gene where
  "geneB = \<lparr>sourceType = 1, sourceNum = 3, sinkType = 0, sinkNum = 2, weight = - 5\<rparr>"

text \<open>Under \<open>packGene\<close>, the word of \<open>geneC\<close> is the bitwise complement of the word of \<open>geneA\<close>.\<close>

definition geneC :: Gene where
  "geneC = \<lparr>sourceType = 1, sourceNum = 127, sinkType = 0, sinkNum = 127, weight = - 101\<rparr>"

section \<open>geneticDiversity\<close>

text \<open>
  The function reads three globals and the random generator: the population size
  \<^verbatim>\<open>p.population\<close>, the container \<^verbatim>\<open>peeps\<close> of the individuals (indexed from 1; only the genome
  of an individual is read, so \<open>peeps\<close> maps an index to a genome), the comparison method, and
  \<^verbatim>\<open>randomUint(min, max)\<close>. None of them is defined in the two source files; they are
  parameters. The random generator is a function from its state and the two bounds to the
  number drawn and the next state, and the state is threaded through the loop.

  The loop stops with the error as soon as a comparison fails its assertion. Of each
  comparison the loop uses what it returns, \<open>genomeSimilarity\<close>; the divisions are not
  followed at this level.
\<close>

type_synonym 'r randomSource = "'r \<Rightarrow> nat \<Rightarrow> nat \<Rightarrow> nat \<times> 'r"

function diversityLoop ::
  "rawView \<Rightarrow> nat \<Rightarrow> nat \<Rightarrow> (nat \<Rightarrow> Genome) \<Rightarrow> 'r randomSource
     \<Rightarrow> nat \<Rightarrow> nat \<Rightarrow> cfloat \<Rightarrow> 'r \<Rightarrow> error + nat \<times> cfloat \<times> 'r" where
  "diversityLoop raw method population peeps randomUint count numSamples similaritySum rs =
     (if 0 < count then
        (case randomUint rs 1 (population - 1) of
           (index0, rs') \<Rightarrow>
             (let index1 = index0 + 1 in
                case genomeSimilarity raw method (peeps index0) (peeps index1) of
                  Inl e \<Rightarrow> Inl e
                | Inr x \<Rightarrow>
                    diversityLoop raw method population peeps randomUint
                      (count - 1) (numSamples + 1) (fadd similaritySum x) rs'))
      else Inr (numSamples, similaritySum, rs))"
  by pat_completeness auto
termination
  by (relation "measure (\<lambda>(raw, method, population, peeps, randomUint, count, rest). count)")
    auto

definition geneticDiversity ::
  "rawView \<Rightarrow> nat \<Rightarrow> nat \<Rightarrow> (nat \<Rightarrow> Genome) \<Rightarrow> 'r randomSource \<Rightarrow> 'r
     \<Rightarrow> error + cfloat \<times> 'r" where
  "geneticDiversity raw method population peeps randomUint rs =
     (if population < 2 then Inr (Fin 0, rs)
      else
        (case diversityLoop raw method population peeps randomUint
                (min 1000 population) 0 (Fin 0) rs of
           Inl e \<Rightarrow> Inl e
         | Inr (numSamples, similaritySum, rs') \<Rightarrow>
             Inr (fsub (Fin 1) (fdiv similaritySum (Fin (real numSamples))), rs')))"

text \<open>
  The estimator in the words of the specification. \<open>draws\<close> is the list of the indices that
  \<open>k\<close> successive draws from the closed interval \<open>[lo, hi]\<close> give, with the state of the
  generator after them; \<open>accumulateSimilarity\<close> adds up the similarity of the adjacent pair
  \<open>(i, i + 1)\<close> for each index \<open>i\<close> of a list.
\<close>

fun draws :: "'r randomSource \<Rightarrow> nat \<Rightarrow> nat \<Rightarrow> nat \<Rightarrow> 'r \<Rightarrow> nat list \<times> 'r" where
  "draws randomUint lo hi 0 rs = ([], rs)"
| "draws randomUint lo hi (Suc k) rs =
     (case randomUint rs lo hi of
        (i, rs') \<Rightarrow> (case draws randomUint lo hi k rs' of (is, rs'') \<Rightarrow> (i # is, rs'')))"

fun accumulateSimilarity ::
  "rawView \<Rightarrow> nat \<Rightarrow> (nat \<Rightarrow> Genome) \<Rightarrow> cfloat \<Rightarrow> nat list \<Rightarrow> error + cfloat" where
  "accumulateSimilarity raw method peeps acc [] = Inr acc"
| "accumulateSimilarity raw method peeps acc (i # is) =
     (case genomeSimilarity raw method (peeps i) (peeps (i + 1)) of
        Inl e \<Rightarrow> Inl e
      | Inr x \<Rightarrow> accumulateSimilarity raw method peeps (fadd acc x) is)"

definition sampleBudget :: "nat \<Rightarrow> nat" where
  "sampleBudget population = min 1000 population"

text \<open>
  A random source for the worked examples: its state is a counter, and a draw is the counter
  folded into the interval.
\<close>

definition counterSource :: "nat randomSource" where
  "counterSource rs lo hi = (lo + rs mod (hi - lo + 1), rs + 1)"

definition examplePeeps :: "nat \<Rightarrow> Genome" where
  "examplePeeps i = (if i = 1 then [geneA, geneB] else if i = 2 then [geneA, geneA] else [geneB])"

section \<open>The matching computed by the matching phase\<close>

text \<open>
  The matching phase only leaves flags and a count behind. To reason about it, the pairs it
  forms are made explicit: a pair \<open>(i, j)\<close> stands for position \<open>i\<close> of \<open>a\<close> claiming position
  \<open>j\<close> of \<open>s\<close>. \<open>cand\<close> holds for the pairs the loops may form at all: both positions within
  the capped lengths, \<open>j\<close> in the window of \<open>i\<close>, and matching genes.
\<close>

definition cand :: "Genome \<Rightarrow> Genome \<Rightarrow> nat \<Rightarrow> nat \<Rightarrow> nat \<Rightarrow> nat \<Rightarrow> nat \<Rightarrow> bool" where
  "cand s a sl al rng i j \<longleftrightarrow>
     i < al \<and> j < sl \<and> i - rng \<le> j \<and> j < i + rng + 1 \<and> genesMatch (a ! i) (s ! j)"

text \<open>
  A set of pairs is \<open>stable\<close> up to \<open>n\<close> when it pairs candidates with first component below
  \<open>n\<close>, no position occurs twice on either side, and no candidate pair is left for which
  both positions are free or paired with a later partner.
\<close>

definition stableUpto ::
  "Genome \<Rightarrow> Genome \<Rightarrow> nat \<Rightarrow> nat \<Rightarrow> nat \<Rightarrow> nat \<Rightarrow> (nat \<times> nat) set \<Rightarrow> bool" where
  "stableUpto s a sl al rng n M \<longleftrightarrow>
     (\<forall>i j. (i, j) \<in> M \<longrightarrow> i < n \<and> cand s a sl al rng i j)
     \<and> single_valued M \<and> single_valued (M\<inverse>)
     \<and> (\<forall>i j. i < n \<and> cand s a sl al rng i j \<longrightarrow>
           (i, j) \<in> M \<or> (\<exists>i'<i. (i', j) \<in> M) \<or> (\<exists>j'<j. (i, j') \<in> M))"

text \<open>The flag vector of length \<open>n\<close> of a set of positions.\<close>

definition flagsOf :: "nat \<Rightarrow> nat set \<Rightarrow> int list" where
  "flagsOf n A = map (\<lambda>k. if k \<in> A then 1 else 0) [0..<n]"

text \<open>The invariant of \<open>matchLoop\<close>: the state is the image of a stable set of pairs.\<close>

definition matchInv ::
  "Genome \<Rightarrow> Genome \<Rightarrow> nat \<Rightarrow> nat \<Rightarrow> nat \<Rightarrow> nat \<Rightarrow> (nat \<times> nat) set
     \<Rightarrow> int list \<times> int list \<times> nat \<Rightarrow> bool" where
  "matchInv s a sl al rng n M st \<longleftrightarrow>
     stableUpto s a sl al rng n M
     \<and> fst st = flagsOf sl (Range M)
     \<and> fst (snd st) = flagsOf al (Domain M)
     \<and> snd (snd st) = card M"

text \<open>
  The flagged positions from \<open>lo\<close> up to \<open>hi\<close>, in increasing order, and the number of pairs of
  a list of pairs whose genes do not match.
\<close>

definition flagged :: "int list \<Rightarrow> nat \<Rightarrow> nat \<Rightarrow> nat list" where
  "flagged flags lo hi = filter (\<lambda>k. flags ! k = 1) [lo..<hi]"

definition mismatches :: "Genome \<Rightarrow> Genome \<Rightarrow> (nat \<times> nat) list \<Rightarrow> nat" where
  "mismatches s a ps = length (filter (\<lambda>(i, j). \<not> genesMatch (a ! i) (s ! j)) ps)"

section \<open>The loops of the Hamming metrics\<close>

text \<open>The loops are unfolded one step at a time, where a proof asks for it.\<close>

declare findMatch.simps [simp del]
declare matchLoop.simps [simp del]
declare nextFlag.simps [simp del]
declare transLoop.simps [simp del]
declare prefixLoop.simps [simp del]
declare bitCountLoop.simps [simp del]
declare byteCountLoop.simps [simp del]
declare diversityLoop.simps [simp del]

lemma jaro_winkler_distance_unfold:
  "jaro_winkler_distance genome1 genome2 =
     (let s = genome1;
          a = genome2;
          sl = min maxNumGenesToCompare (length s);
          al = min maxNumGenesToCompare (length a);
          rng = max sl al div 2 - 1
      in if sl = 0 \<or> al = 0 then 0
         else
           (case matchLoop s a sl al rng 0 (replicate sl 0, replicate al 0, 0) of
              (sflags, aflags, m) \<Rightarrow>
                if m = 0 then 0
                else
                  (let t = transLoop s a sflags aflags sl al 0 0 0 div 2;
                       dw = (real m / real sl + real m / real al
                              + real_of_int (int m - int t) / real m) / 3;
                       prefixLength = min maxPrefixLength (min sl al);
                       matchingPrefix = prefixLoop s a prefixLength 0 0;
                       winklerBonus = winklerScaling * real matchingPrefix * (1 - dw)
                   in min 1 (dw + winklerBonus))))"
  unfolding jaro_winkler_distance_def jaro_winkler_distance_run_def Let_def rdivide_def
    prod.case
  by (simp only: if_distrib [of fst] prod.case_distrib [of fst] fst_conv)

lemma genomeSimilarity_unfold:
  "genomeSimilarity raw method g1 g2 =
     (if length g1 \<noteq> length g2 then
        (let similarity = jaro_winkler_distance g1 g2;
             len1 = real (length g1);
             len2 = real (length g2);
             lengthRatio = min len1 len2 / max len1 len2
         in Inr (Fin (similarity * (8 / 10) + lengthRatio * (2 / 10))))
      else if method = 0 then Inr (Fin (jaro_winkler_distance g1 g2))
      else if method = 1 then map_sum id fst (hammingDistanceBits raw g1 g2)
      else if method = 2 then map_sum id fst (hammingDistanceBytes raw g1 g2)
      else Inl InvalidConfiguration)"
  by (simp add: genomeSimilarity_def genomeSimilarity_run_def jaro_winkler_distance_def
      rdivide_def Let_def split: prod.splits)

lemma popcount_le: "popcount w \<le> 32"
  unfolding popcount_def by (rule order_trans [OF length_filter_le]) simp

lemma popcount_zero: "popcount 0 = 0"
  by (simp add: popcount_def)

lemma popcount_ones: "popcount (w XOR NOT w) = 32"
proof -
  have "w XOR NOT w = - 1" by (simp add: bit_eq_iff bit_simps)
  then have "filter (bit (w XOR NOT w)) [0..<32] = [0..<32]"
    by (simp add: filter_id_conv del: upt_Suc)
  then show ?thesis by (simp add: popcount_def del: upt_Suc)
qed

lemma differingBits_same: "differingBits raw g g = 0"
  by (induction g) (simp_all add: differingBits_def popcount_zero)

lemma differingBits_le: "differingBits raw g1 g2 \<le> 32 * length g1"
proof (induction g1 arbitrary: g2)
  case Nil
  show ?case by (simp add: differingBits_def)
next
  case (Cons x xs)
  show ?case
  proof (cases g2)
    case Nil
    then show ?thesis by (simp add: differingBits_def)
  next
    case (Cons y ys)
    have "differingBits raw (x # xs) (y # ys)
        = popcount (raw x XOR raw y) + differingBits raw xs ys"
      by (simp add: differingBits_def)
    with Cons.IH [of ys] popcount_le [of "raw x XOR raw y"] Cons show ?thesis
      by simp
  qed
qed

lemma differingBits_complement:
  "length g1 = length g2 \<Longrightarrow> \<forall>k<length g1. raw (g2 ! k) = NOT (raw (g1 ! k)) \<Longrightarrow>
   differingBits raw g1 g2 = 32 * length g1"
proof (induction g1 g2 rule: list_induct2)
  case Nil
  show ?case by (simp add: differingBits_def)
next
  case (Cons x xs y ys)
  from Cons.prems have hd: "raw y = NOT (raw x)" by auto
  from Cons.prems have tl: "\<forall>k<length xs. raw (ys ! k) = NOT (raw (xs ! k))" by auto
  have "differingBits raw (x # xs) (y # ys)
      = popcount (raw x XOR raw y) + differingBits raw xs ys"
    by (simp add: differingBits_def)
  moreover have "popcount (raw x XOR raw y) = 32"
    unfolding hd by (rule popcount_ones)
  ultimately show ?case using Cons.IH [OF tl] by simp
qed

lemma identicalCount_le: "identicalCount raw g1 g2 \<le> length g1"
  unfolding identicalCount_def
  by (rule order_trans [OF length_filter_le]) simp

lemma identicalCount_same: "identicalCount raw g g = length g"
  by (induction g) (simp_all add: identicalCount_def)

lemma bitCountLoop_zip:
  "length g1 = length g2 \<Longrightarrow> acc < 2 ^ 32 \<Longrightarrow>
   bitCountLoop raw g1 g2 i acc = (acc + differingBits raw (drop i g1) (drop i g2)) mod 2 ^ 32"
proof (induction raw g1 g2 i acc rule: bitCountLoop.induct)
  case (1 raw g1 g2 i acc)
  show ?case
  proof (cases "i < length g1")
    case True
    let ?p = "popcount (raw (g1 ! i) XOR raw (g2 ! i))"
    from True "1.prems" have d: "drop i g1 = g1 ! i # drop (Suc i) g1"
        "drop i g2 = g2 ! i # drop (Suc i) g2"
      by (simp_all add: Cons_nth_drop_Suc)
    have step: "bitCountLoop raw g1 g2 i acc
        = bitCountLoop raw g1 g2 (Suc i) ((acc + ?p) mod 2 ^ 32)"
      using True by (subst bitCountLoop.simps) simp
    have "(acc + ?p) mod 2 ^ 32 < (2 ^ 32 :: nat)" by simp
    from "1.IH" [OF True "1.prems"(1) this]
    have "bitCountLoop raw g1 g2 (Suc i) ((acc + ?p) mod 2 ^ 32)
        = ((acc + ?p) mod 2 ^ 32 + differingBits raw (drop (Suc i) g1) (drop (Suc i) g2))
            mod 2 ^ 32" .
    also have "\<dots> = (acc + ?p + differingBits raw (drop (Suc i) g1) (drop (Suc i) g2))
            mod 2 ^ 32"
      by (rule mod_add_left_eq)
    also have "acc + ?p + differingBits raw (drop (Suc i) g1) (drop (Suc i) g2)
        = acc + differingBits raw (drop i g1) (drop i g2)"
      by (simp add: d differingBits_def)
    finally show ?thesis using step by simp
  next
    case False
    with "1.prems" show ?thesis
      by (subst bitCountLoop.simps) (simp add: differingBits_def)
  qed
qed

lemma byteCountLoop_zip:
  "length g1 = length g2 \<Longrightarrow> acc < 2 ^ 32 \<Longrightarrow>
   byteCountLoop raw g1 g2 i acc = (acc + identicalCount raw (drop i g1) (drop i g2)) mod 2 ^ 32"
proof (induction raw g1 g2 i acc rule: byteCountLoop.induct)
  case (1 raw g1 g2 i acc)
  show ?case
  proof (cases "i < length g1")
    case True
    let ?p = "if raw (g1 ! i) = raw (g2 ! i) then 1 else 0 :: nat"
    from True "1.prems" have d: "drop i g1 = g1 ! i # drop (Suc i) g1"
        "drop i g2 = g2 ! i # drop (Suc i) g2"
      by (simp_all add: Cons_nth_drop_Suc)
    have step: "byteCountLoop raw g1 g2 i acc
        = byteCountLoop raw g1 g2 (Suc i) ((acc + ?p) mod 2 ^ 32)"
      using True by (subst byteCountLoop.simps) simp
    have "(acc + ?p) mod 2 ^ 32 < (2 ^ 32 :: nat)" by simp
    from "1.IH" [OF True "1.prems"(1) this]
    have "byteCountLoop raw g1 g2 (Suc i) ((acc + ?p) mod 2 ^ 32)
        = ((acc + ?p) mod 2 ^ 32 + identicalCount raw (drop (Suc i) g1) (drop (Suc i) g2))
            mod 2 ^ 32" .
    also have "\<dots> = (acc + ?p + identicalCount raw (drop (Suc i) g1) (drop (Suc i) g2))
            mod 2 ^ 32"
      by (rule mod_add_left_eq)
    also have "acc + ?p + identicalCount raw (drop (Suc i) g1) (drop (Suc i) g2)
        = acc + identicalCount raw (drop i g1) (drop i g2)"
      by (simp add: d identicalCount_def)
    finally show ?thesis using step by simp
  next
    case False
    with "1.prems" show ?thesis
      by (subst byteCountLoop.simps) (simp add: identicalCount_def)
  qed
qed

text \<open>What the two functions return, for every size, in terms of the two counts.\<close>

lemma hammingDistanceBytes_eq:
  assumes "length g1 = length g2"
  shows "hammingDistanceBytes raw g1 g2 =
     Inr (fdiv (Fin (real (identicalCount raw g1 g2 mod 2 ^ 32))) (Fin (real (lengthBytes g1))),
          [(real (identicalCount raw g1 g2 mod 2 ^ 32), real (lengthBytes g1))])"
  using assms byteCountLoop_zip [OF assms, of 0 raw 0]
  by (simp add: hammingDistanceBytes_def fdivide_def Let_def del: fdiv.simps)

lemma hammingDistanceBits_eq:
  assumes "length g1 = length g2"
  shows "hammingDistanceBits raw g1 g2 =
     Inr (fsub (Fin 1) (fmin (Fin 1)
            (fdiv (Fin (2 * real (differingBits raw g1 g2 mod 2 ^ 32)))
                  (Fin (real (lengthBits g1))))),
          [(2 * real (differingBits raw g1 g2 mod 2 ^ 32), real (lengthBits g1))])"
  using assms bitCountLoop_zip [OF assms, of 0 raw 0]
  by (simp add: hammingDistanceBits_def fdivide_def Let_def del: fdiv.simps)

text \<open>Below \<open>2 ^ 30\<close> genes the length in bytes does not wrap, below \<open>2 ^ 27\<close> the length in bits.\<close>

lemma lengthBytes_small: "length g < 2 ^ 30 \<Longrightarrow> lengthBytes g = length g * 4"
  by (simp add: lengthBytes_def numElements_def bytesPerElement_def)

lemma lengthBits_small: "length g < 2 ^ 27 \<Longrightarrow> lengthBits g = length g * 32"
  by (simp add: lengthBits_def lengthBytes_def numElements_def bytesPerElement_def)

lemma hammingDistanceBytes_small:
  assumes "length g1 = length g2" and "length g1 < 2 ^ 30"
  shows "hammingDistanceBytes raw g1 g2 =
     Inr (fdiv (Fin (real (identicalCount raw g1 g2))) (Fin (real (length g1 * 4))),
          [(real (identicalCount raw g1 g2), real (length g1 * 4))])"
proof -
  from identicalCount_le [of raw g1 g2] assms(2)
  have "identicalCount raw g1 g2 mod 2 ^ 32 = identicalCount raw g1 g2" by simp
  then show ?thesis
    by (simp add: hammingDistanceBytes_eq [OF assms(1)] lengthBytes_small [OF assms(2)])
qed

lemma hammingDistanceBits_small:
  assumes "length g1 = length g2" and "length g1 < 2 ^ 27"
  shows "hammingDistanceBits raw g1 g2 =
     Inr (fsub (Fin 1) (fmin (Fin 1)
            (fdiv (Fin (2 * real (differingBits raw g1 g2))) (Fin (real (totalBits g1))))),
          [(2 * real (differingBits raw g1 g2), real (totalBits g1))])"
proof -
  from differingBits_le [of raw g1 g2] assms(2)
  have "differingBits raw g1 g2 mod 2 ^ 32 = differingBits raw g1 g2" by simp
  then show ?thesis
    by (simp add: hammingDistanceBits_eq [OF assms(1)] lengthBits_small [OF assms(2)]
        totalBits_def bitsPerGeneWord_def)
qed

lemma packGene_geneC: "packGene geneC = NOT (packGene geneA)"
  by (simp add: packGene_def geneA_def geneC_def)

lemma genomeSimilarity_wordlevel_same:
  "g \<noteq> [] \<Longrightarrow> length g < 2 ^ 30 \<Longrightarrow> genomeSimilarity raw 2 g g = Inr (Fin (1 / 4))"
  by (simp add: genomeSimilarity_unfold hammingDistanceBytes_small identicalCount_same)

lemma fdiv_NaN_iff: "fdiv (Fin x) (Fin y) = NaN \<longleftrightarrow> x = 0 \<and> y = 0"
  by simp

section \<open>The matching phase forms a stable set of pairs\<close>

lemma genesMatch_sym: "genesMatch g1 g2 = genesMatch g2 g1"
  by (auto simp: genesMatch_def)

lemma genesMatch_refl: "genesMatch g g"
  by (simp add: genesMatch_def)

lemma cand_sym: "cand s a sl al rng i j = cand a s al sl rng j i"
  unfolding cand_def by (subst genesMatch_sym) auto

lemma findMatch_Some:
  "findMatch ai s sflags j l = Some k \<Longrightarrow>
     j \<le> k \<and> k < l \<and> genesMatch ai (s ! k) \<and> sflags ! k = 0
     \<and> (\<forall>k'. j \<le> k' \<and> k' < k \<longrightarrow> \<not> (genesMatch ai (s ! k') \<and> sflags ! k' = 0))"
proof (induction ai s sflags j l rule: findMatch.induct)
  case (1 ai s sflags j l)
  show ?case
  proof (cases "j < l")
    case False
    with "1.prems" show ?thesis by (simp add: findMatch.simps)
  next
    case True
    show ?thesis
    proof (cases "genesMatch ai (s ! j) \<and> sflags ! j = 0")
      case hit: True
      with True "1.prems" have "k = j" by (simp add: findMatch.simps)
      with hit True show ?thesis by auto
    next
      case miss: False
      with True "1.prems" have r: "findMatch ai s sflags (Suc j) l = Some k"
        by (simp add: findMatch.simps)
      from "1.IH" [OF True miss r] have ih: "Suc j \<le> k \<and> k < l \<and> genesMatch ai (s ! k) \<and> sflags ! k = 0
     \<and> (\<forall>k'. Suc j \<le> k' \<and> k' < k \<longrightarrow> \<not> (genesMatch ai (s ! k') \<and> sflags ! k' = 0))" .
      have "\<not> (genesMatch ai (s ! k') \<and> sflags ! k' = 0)" if "j \<le> k'" "k' < k" for k'
      proof (cases "k' = j")
        case True
        with miss show ?thesis by simp
      next
        case False
        with that have "Suc j \<le> k'" by simp
        with ih that show ?thesis by blast
      qed
      with ih show ?thesis by auto
    qed
  qed
qed

lemma findMatch_None:
  "findMatch ai s sflags j l = None \<Longrightarrow>
     \<forall>k. j \<le> k \<and> k < l \<longrightarrow> \<not> (genesMatch ai (s ! k) \<and> sflags ! k = 0)"
proof (induction ai s sflags j l rule: findMatch.induct)
  case (1 ai s sflags j l)
  show ?case
  proof (cases "j < l")
    case False
    then show ?thesis by auto
  next
    case True
    from True "1.prems" have miss: "\<not> (genesMatch ai (s ! j) \<and> sflags ! j = 0)"
      by (auto simp: findMatch.simps split: if_splits)
    with True "1.prems" have r: "findMatch ai s sflags (Suc j) l = None"
      by (simp add: findMatch.simps)
    from "1.IH" [OF True miss r]
    have ih: "\<forall>k. Suc j \<le> k \<and> k < l \<longrightarrow> \<not> (genesMatch ai (s ! k) \<and> sflags ! k = 0)" .
    show ?thesis
    proof (intro allI impI)
      fix k assume k: "j \<le> k \<and> k < l"
      show "\<not> (genesMatch ai (s ! k) \<and> sflags ! k = 0)"
      proof (cases "k = j")
        case True
        with miss show ?thesis by simp
      next
        case False
        with k have "Suc j \<le> k \<and> k < l" by simp
        with ih show ?thesis by blast
      qed
    qed
  qed
qed

lemma flagsOf_length: "length (flagsOf n A) = n"
  by (simp add: flagsOf_def)

lemma flagsOf_nth: "k < n \<Longrightarrow> flagsOf n A ! k = (if k \<in> A then 1 else 0)"
  by (simp add: flagsOf_def)

lemma flagsOf_update: "flagsOf n (insert j A) = (flagsOf n A)[j := 1]"
proof (rule nth_equalityI)
  show "length (flagsOf n (insert j A)) = length ((flagsOf n A)[j := 1])"
    by (simp add: flagsOf_def)
next
  fix k assume "k < length (flagsOf n (insert j A))"
  then have "k < n" by (simp add: flagsOf_def)
  then show "flagsOf n (insert j A) ! k = (flagsOf n A)[j := 1] ! k"
    by (cases "k = j") (simp_all add: flagsOf_def)
qed

lemma flagsOf_empty: "flagsOf n {} = replicate n 0"
  by (rule nth_equalityI) (auto simp: flagsOf_def)

lemma stableUpto_finite:
  assumes "stableUpto s a sl al rng n M"
  shows "finite M"
proof -
  from assms have "M \<subseteq> {..<al} \<times> {..<sl}"
    by (auto simp: stableUpto_def cand_def)
  then show ?thesis by (rule finite_subset) simp
qed

lemma stableUpto_fst_less:
  "stableUpto s a sl al rng n M \<Longrightarrow> (i, j) \<in> M \<Longrightarrow> i < n"
  by (auto simp: stableUpto_def)

lemma stableUpto_cand:
  "stableUpto s a sl al rng n M \<Longrightarrow> (i, j) \<in> M \<Longrightarrow> cand s a sl al rng i j"
  by (auto simp: stableUpto_def)

lemma matchInv_step_Some:
  assumes inv: "matchInv s a sl al rng i M (sflags, aflags, m)"
    and i: "i < al"
    and fm: "findMatch (a ! i) s sflags (i - rng) (min (i + rng + 1) sl) = Some j"
  shows "matchInv s a sl al rng (Suc i) (insert (i, j) M) (sflags[j := 1], aflags[i := 1], m + 1)"
proof -
  from inv have st: "stableUpto s a sl al rng i M"
    and sf: "sflags = flagsOf sl (Range M)"
    and af: "aflags = flagsOf al (Domain M)"
    and m: "m = card M"
    by (simp_all add: matchInv_def)
  from findMatch_Some [OF fm]
  have j1: "i - rng \<le> j" and j2: "j < i + rng + 1" and j3: "j < sl"
    and gm: "genesMatch (a ! i) (s ! j)" and fj: "sflags ! j = 0"
    and first: "\<And>k. i - rng \<le> k \<Longrightarrow> k < j \<Longrightarrow> \<not> (genesMatch (a ! i) (s ! k) \<and> sflags ! k = 0)"
    by auto
  from i j1 j2 j3 gm have c: "cand s a sl al rng i j" by (simp add: cand_def)
  from fj j3 sf have jR: "j \<notin> Range M"
    by (auto simp: flagsOf_nth split: if_splits)
  have iD: "i \<notin> Domain M"
    using stableUpto_fst_less [OF st] by blast
  have fin: "finite M" using st by (rule stableUpto_finite)
  let ?M = "insert (i, j) M"
  have p1: "\<forall>i' j'. (i', j') \<in> ?M \<longrightarrow> i' < Suc i \<and> cand s a sl al rng i' j'"
    using c st by (auto simp: stableUpto_def less_Suc_eq)
  have p2: "single_valued ?M"
    using st iD by (auto simp: stableUpto_def single_valued_def)
  have p3: "single_valued (?M\<inverse>)"
    using st jR by (auto simp: stableUpto_def single_valued_def)
  have p4: "(i0, j0) \<in> ?M \<or> (\<exists>i'<i0. (i', j0) \<in> ?M) \<or> (\<exists>j'<j0. (i0, j') \<in> ?M)"
    if "i0 < Suc i" and c0: "cand s a sl al rng i0 j0" for i0 j0
  proof (cases "i0 = i")
    case False
    with that have "i0 < i" by simp
    with st c0 have "(i0, j0) \<in> M \<or> (\<exists>i'<i0. (i', j0) \<in> M) \<or> (\<exists>j'<j0. (i0, j') \<in> M)"
      unfolding stableUpto_def by blast
    then show ?thesis by blast
  next
    case True
    consider "j0 = j" | "j0 < j" | "j < j0" by linarith
    then show ?thesis
    proof cases
      case 1
      with True show ?thesis by simp
    next
      case 2
      from c0 True have w: "i - rng \<le> j0" and g0: "genesMatch (a ! i) (s ! j0)" and l0: "j0 < sl"
        by (simp_all add: cand_def)
      from first [OF w 2] g0 have "sflags ! j0 \<noteq> 0" by simp
      with sf l0 have "j0 \<in> Range M" by (auto simp: flagsOf_nth split: if_splits)
      then obtain i' where i': "(i', j0) \<in> M" by blast
      with st have "i' < i" by (rule stableUpto_fst_less)
      with i' True show ?thesis by blast
    next
      case 3
      with True show ?thesis by blast
    qed
  qed
  have st': "stableUpto s a sl al rng (Suc i) ?M"
    unfolding stableUpto_def using p1 p2 p3 p4 by blast
  have sf': "sflags[j := 1] = flagsOf sl (Range ?M)"
    by (simp add: sf flagsOf_update)
  have af': "aflags[i := 1] = flagsOf al (Domain ?M)"
    by (simp add: af flagsOf_update)
  have "(i, j) \<notin> M" using iD by blast
  with fin have m': "m + 1 = card ?M" by (simp add: m)
  from st' sf' af' m' show ?thesis by (simp add: matchInv_def)
qed

lemma matchInv_step_None:
  assumes inv: "matchInv s a sl al rng i M (sflags, aflags, m)"
    and i: "i < al"
    and fm: "findMatch (a ! i) s sflags (i - rng) (min (i + rng + 1) sl) = None"
  shows "matchInv s a sl al rng (Suc i) M (sflags, aflags, m)"
proof -
  from inv have st: "stableUpto s a sl al rng i M"
    and sf: "sflags = flagsOf sl (Range M)"
    by (simp_all add: matchInv_def)
  from findMatch_None [OF fm]
  have none: "\<And>k. i - rng \<le> k \<Longrightarrow> k < min (i + rng + 1) sl
      \<Longrightarrow> \<not> (genesMatch (a ! i) (s ! k) \<and> sflags ! k = 0)"
    by blast
  have p1: "\<forall>i' j'. (i', j') \<in> M \<longrightarrow> i' < Suc i \<and> cand s a sl al rng i' j'"
    using st by (auto simp: stableUpto_def less_Suc_eq)
  have p4: "(i0, j0) \<in> M \<or> (\<exists>i'<i0. (i', j0) \<in> M) \<or> (\<exists>j'<j0. (i0, j') \<in> M)"
    if "i0 < Suc i" and c0: "cand s a sl al rng i0 j0" for i0 j0
  proof (cases "i0 = i")
    case False
    with that have "i0 < i" by simp
    with st c0 show ?thesis unfolding stableUpto_def by blast
  next
    case True
    from c0 True have w: "i - rng \<le> j0" and w2: "j0 < min (i + rng + 1) sl"
      and g0: "genesMatch (a ! i) (s ! j0)" and l0: "j0 < sl"
      by (simp_all add: cand_def)
    from none [OF w w2] g0 have "sflags ! j0 \<noteq> 0" by simp
    with sf l0 have "j0 \<in> Range M" by (auto simp: flagsOf_nth split: if_splits)
    then obtain i' where i': "(i', j0) \<in> M" by blast
    with st have "i' < i" by (rule stableUpto_fst_less)
    with i' True show ?thesis by blast
  qed
  from st have "single_valued M" "single_valued (M\<inverse>)" by (simp_all add: stableUpto_def)
  with p1 p4 have "stableUpto s a sl al rng (Suc i) M"
    unfolding stableUpto_def by blast
  with inv show ?thesis by (simp add: matchInv_def)
qed

lemma matchLoop_inv:
  "matchInv s a sl al rng i M st \<Longrightarrow> i \<le> al \<Longrightarrow>
   \<exists>M'. matchInv s a sl al rng al M' (matchLoop s a sl al rng i st)"
proof (induction s a sl al rng i st arbitrary: M rule: matchLoop.induct)
  case (1 s a sl al rng i sflags aflags m)
  show ?case
  proof (cases "i < al")
    case False
    with "1.prems" have "i = al" by simp
    with "1.prems" False show ?thesis
      by (subst matchLoop.simps) auto
  next
    case True
    show ?thesis
    proof (cases "findMatch (a ! i) s sflags (i - rng) (min (i + rng + 1) sl)")
      case None
      from matchInv_step_None [OF "1.prems"(1) True None]
      have "matchInv s a sl al rng (Suc i) M (sflags, aflags, m)" .
      from "1.IH"(1) [OF True None this] True
      have "\<exists>M'. matchInv s a sl al rng al M'
              (matchLoop s a sl al rng (Suc i) (sflags, aflags, m))" by simp
      moreover have "matchLoop s a sl al rng i (sflags, aflags, m)
          = matchLoop s a sl al rng (Suc i) (sflags, aflags, m)"
        by (subst matchLoop.simps) (simp only: True if_True None option.case)
      ultimately show ?thesis by simp
    next
      case (Some j)
      from matchInv_step_Some [OF "1.prems"(1) True Some]
      have "matchInv s a sl al rng (Suc i) (insert (i, j) M)
              (sflags[j := 1], aflags[i := 1], m + 1)" .
      from "1.IH"(2) [OF True Some this] True
      have "\<exists>M'. matchInv s a sl al rng al M'
              (matchLoop s a sl al rng (Suc i) (sflags[j := 1], aflags[i := 1], m + 1))"
        by simp
      moreover have "matchLoop s a sl al rng i (sflags, aflags, m)
          = matchLoop s a sl al rng (Suc i) (sflags[j := 1], aflags[i := 1], m + 1)"
        by (subst matchLoop.simps) (simp only: True if_True Some option.case)
      ultimately show ?thesis by simp
    qed
  qed
qed

lemma matchInv_init: "matchInv s a sl al rng 0 {} (replicate sl 0, replicate al 0, 0)"
  by (simp add: matchInv_def stableUpto_def flagsOf_empty)

lemma matchLoop_stable:
  "\<exists>M. matchInv s a sl al rng al M
          (matchLoop s a sl al rng 0 (replicate sl 0, replicate al 0, 0))"
  by (rule matchLoop_inv [OF matchInv_init]) simp

section \<open>The stable set of pairs is unique\<close>

lemma stable_sub:
  assumes stM: "stableUpto s a sl al rng al M" and stM': "stableUpto s a sl al rng al M'"
    and ih: "\<And>i' j'. i' < i \<Longrightarrow> (i', j') \<in> M \<longleftrightarrow> (i', j') \<in> M'"
    and ij: "(i, j) \<in> M"
  shows "(i, j) \<in> M'"
proof -
  from stM ij have c: "cand s a sl al rng i j" by (rule stableUpto_cand)
  then have i: "i < al" by (simp add: cand_def)
  from stM have svM: "single_valued M" and svMc: "single_valued (M\<inverse>)"
    by (simp_all add: stableUpto_def)
  from stM' have svM'c: "single_valued (M'\<inverse>)"
    by (simp add: stableUpto_def)
  from stM' i c
  consider "(i, j) \<in> M'" | i' where "i' < i" "(i', j) \<in> M'" | j' where "j' < j" "(i, j') \<in> M'"
    unfolding stableUpto_def by blast
  then show ?thesis
  proof cases
    case 1
    then show ?thesis .
  next
    case 2
    with ih have "(i', j) \<in> M" by blast
    with ij svMc have "i' = i" by (auto simp: single_valued_def)
    with 2 show ?thesis by simp
  next
    case 3
    from stM' 3(2) have c': "cand s a sl al rng i j'" by (rule stableUpto_cand)
    from stM i c'
    consider "(i, j') \<in> M" | i' where "i' < i" "(i', j') \<in> M"
      | j'' where "j'' < j'" "(i, j'') \<in> M"
      unfolding stableUpto_def by blast
    then show ?thesis
    proof cases
      case 1
      with ij svM have "j' = j" by (auto simp: single_valued_def)
      with 3 show ?thesis by simp
    next
      case 2
      with ih have "(i', j') \<in> M'" by blast
      with 3(2) svM'c have "i' = i" by (auto simp: single_valued_def)
      with 2 show ?thesis by simp
    next
      case inner: 3
      with ij svM have "j'' = j" by (auto simp: single_valued_def)
      with inner 3 show ?thesis by simp
    qed
  qed
qed

lemma stable_unique:
  assumes stM: "stableUpto s a sl al rng al M" and stM': "stableUpto s a sl al rng al M'"
  shows "M = M'"
proof -
  have "\<forall>j. (i, j) \<in> M \<longleftrightarrow> (i, j) \<in> M'" for i
  proof (induction i rule: less_induct)
    case (less i)
    have ih1: "\<And>i' j'. i' < i \<Longrightarrow> (i', j') \<in> M \<longleftrightarrow> (i', j') \<in> M'"
      using less.IH by blast
    then have ih2: "\<And>i' j'. i' < i \<Longrightarrow> (i', j') \<in> M' \<longleftrightarrow> (i', j') \<in> M"
      by blast
    show ?case
      using stable_sub [OF stM stM' ih1] stable_sub [OF stM' stM ih2] by blast
  qed
  then show ?thesis by auto
qed

lemma stable_converse:
  assumes st: "stableUpto s a sl al rng al M"
  shows "stableUpto a s al sl rng sl (M\<inverse>)"
proof -
  have p1: "\<forall>j i. (j, i) \<in> M\<inverse> \<longrightarrow> j < sl \<and> cand a s al sl rng j i"
  proof (intro allI impI)
    fix j i assume "(j, i) \<in> M\<inverse>"
    then have "(i, j) \<in> M" by simp
    with st have c: "cand s a sl al rng i j" by (rule stableUpto_cand)
    then have "j < sl" by (simp add: cand_def)
    with c show "j < sl \<and> cand a s al sl rng j i" by (simp add: cand_sym)
  qed
  from st have p2: "single_valued (M\<inverse>)" and p3: "single_valued ((M\<inverse>)\<inverse>)"
    by (simp_all add: stableUpto_def)
  have p4: "\<forall>j i. j < sl \<and> cand a s al sl rng j i \<longrightarrow>
      (j, i) \<in> M\<inverse> \<or> (\<exists>j'<j. (j', i) \<in> M\<inverse>) \<or> (\<exists>i'<i. (j, i') \<in> M\<inverse>)"
  proof (intro allI impI)
    fix j i assume "j < sl \<and> cand a s al sl rng j i"
    then have c: "cand s a sl al rng i j" by (simp add: cand_sym)
    then have "i < al" by (simp add: cand_def)
    with st c have "(i, j) \<in> M \<or> (\<exists>i'<i. (i', j) \<in> M) \<or> (\<exists>j'<j. (i, j') \<in> M)"
      unfolding stableUpto_def by blast
    then show "(j, i) \<in> M\<inverse> \<or> (\<exists>j'<j. (j', i) \<in> M\<inverse>) \<or> (\<exists>i'<i. (j, i') \<in> M\<inverse>)"
      by auto
  qed
  from p1 p2 p3 p4 show ?thesis unfolding stableUpto_def by blast
qed

lemma card_converse_rel: "card (M\<inverse>) = card M"
proof -
  have "M\<inverse> = (\<lambda>(i, j). (j, i)) ` M" by auto
  moreover have "inj_on (\<lambda>(i, j). (j, i)) M" by (auto simp: inj_on_def)
  ultimately show ?thesis by (simp add: card_image)
qed

lemma matchLoop_swap:
  assumes r: "matchLoop s a sl al rng 0 (replicate sl 0, replicate al 0, 0) = (sflags, aflags, m)"
  shows "matchLoop a s al sl rng 0 (replicate al 0, replicate sl 0, 0) = (aflags, sflags, m)"
proof -
  from matchLoop_stable [of s a sl al rng] r
  obtain M where M: "matchInv s a sl al rng al M (sflags, aflags, m)" by auto
  obtain M2 where M2: "matchInv a s al sl rng sl M2
      (matchLoop a s al sl rng 0 (replicate al 0, replicate sl 0, 0))"
    using matchLoop_stable [of a s al sl rng] by blast
  from M have st: "stableUpto s a sl al rng al M" by (simp add: matchInv_def)
  from M2 have "stableUpto a s al sl rng sl M2" by (simp add: matchInv_def)
  then have "stableUpto s a sl al rng al (M2\<inverse>)" by (rule stable_converse)
  with st have eq: "M = M2\<inverse>" by (rule stable_unique)
  then have "Range M2 = Domain M" "Domain M2 = Range M" "card M2 = card M"
    by (auto simp: card_converse_rel)
  with M M2 show ?thesis
    by (cases "matchLoop a s al sl rng 0 (replicate al 0, replicate sl 0, 0)")
      (simp add: matchInv_def)
qed

section \<open>The transposition and prefix phases\<close>

lemma flagged_step:
  "lo < hi \<Longrightarrow> flagged flags lo hi =
     (if flags ! lo = 1 then lo # flagged flags (Suc lo) hi else flagged flags (Suc lo) hi)"
  by (simp add: flagged_def upt_conv_Cons)

lemma flagged_done: "\<not> lo < hi \<Longrightarrow> flagged flags lo hi = []"
  by (simp add: flagged_def)

lemma nextFlag_found:
  "nextFlag sflags l sl < sl \<Longrightarrow>
   flagged sflags l sl = nextFlag sflags l sl # flagged sflags (Suc (nextFlag sflags l sl)) sl"
proof (induction sflags l sl rule: nextFlag.induct)
  case (1 sflags l sl)
  show ?case
  proof (cases "l < sl")
    case False
    with "1.prems" show ?thesis by (simp add: nextFlag.simps)
  next
    case True
    show ?thesis
    proof (cases "sflags ! l = 1")
      case hit: True
      with True have "nextFlag sflags l sl = l" by (simp add: nextFlag.simps)
      with True hit show ?thesis by (simp add: flagged_step)
    next
      case miss: False
      with True have n: "nextFlag sflags l sl = nextFlag sflags (Suc l) sl"
        by (simp add: nextFlag.simps)
      with "1.prems" have "nextFlag sflags (Suc l) sl < sl" by simp
      from "1.IH" [OF True miss this] True miss n show ?thesis
        by (simp add: flagged_step)
    qed
  qed
qed

lemma nextFlag_none:
  "\<not> nextFlag sflags l sl < sl \<Longrightarrow> flagged sflags l sl = []"
proof (induction sflags l sl rule: nextFlag.induct)
  case (1 sflags l sl)
  show ?case
  proof (cases "l < sl")
    case False
    then show ?thesis by (rule flagged_done)
  next
    case True
    have miss: "sflags ! l \<noteq> 1"
    proof
      assume "sflags ! l = 1"
      with True have "nextFlag sflags l sl = l" by (simp add: nextFlag.simps)
      with True "1.prems" show False by simp
    qed
    with True have n: "nextFlag sflags l sl = nextFlag sflags (Suc l) sl"
      by (simp add: nextFlag.simps)
    with "1.prems" have "\<not> nextFlag sflags (Suc l) sl < sl" by simp
    from "1.IH" [OF True miss this] True miss show ?thesis
      by (simp add: flagged_step)
  qed
qed

lemma mismatches_Nil [simp]: "mismatches s a [] = 0"
  by (simp add: mismatches_def)

lemma mismatches_Cons:
  "mismatches s a ((i, j) # ps) =
     (if genesMatch (a ! i) (s ! j) then 0 else 1) + mismatches s a ps"
  by (simp add: mismatches_def)

lemma transLoop_count:
  "transLoop s a sflags aflags sl al i l t =
     t + mismatches s a (zip (flagged aflags i al) (flagged sflags l sl))"
proof (induction s a sflags aflags sl al i l t rule: transLoop.induct)
  case (1 s a sflags aflags sl al i l t)
  show ?case
  proof (cases "i < al")
    case False
    then show ?thesis by (simp add: transLoop.simps flagged_done)
  next
    case True
    show ?thesis
    proof (cases "aflags ! i = 1")
      case skip: False
      with True have "transLoop s a sflags aflags sl al i l t
          = transLoop s a sflags aflags sl al (Suc i) l t"
        by (subst transLoop.simps) simp
      with "1.IH"(2) [OF True skip] True skip show ?thesis
        by (simp add: flagged_step [of i al])
    next
      case flag: True
      let ?j = "nextFlag sflags l sl"
      have fa: "flagged aflags i al = i # flagged aflags (Suc i) al"
        using True flag by (simp add: flagged_step)
      show ?thesis
      proof (cases "?j < sl")
        case found: True
        have step: "transLoop s a sflags aflags sl al i l t
            = transLoop s a sflags aflags sl al (Suc i) (?j + 1)
                (if \<not> genesMatch (a ! i) (s ! ?j) then t + 1 else t)"
          using True flag found by (subst transLoop.simps) (simp add: Let_def)
        have fs: "flagged sflags l sl = ?j # flagged sflags (Suc ?j) sl"
          using found by (rule nextFlag_found)
        from "1.IH"(1) [OF True flag refl]
        have "transLoop s a sflags aflags sl al (Suc i) (?j + 1)
                (if \<not> genesMatch (a ! i) (s ! ?j) then t + 1 else t)
            = (if \<not> genesMatch (a ! i) (s ! ?j) then t + 1 else t)
              + mismatches s a (zip (flagged aflags (Suc i) al) (flagged sflags (?j + 1) sl))"
          using found by simp
        with step show ?thesis
          by (simp add: fa fs mismatches_Cons)
      next
        case nf: False
        have step: "transLoop s a sflags aflags sl al i l t
            = transLoop s a sflags aflags sl al (Suc i) l t"
          using True flag nf by (subst transLoop.simps) (simp add: Let_def)
        have fs: "flagged sflags l sl = []"
          using nf by (rule nextFlag_none)
        from "1.IH"(1) [OF True flag refl]
        have "transLoop s a sflags aflags sl al (Suc i) l t
            = t + mismatches s a (zip (flagged aflags (Suc i) al) (flagged sflags l sl))"
          using nf by simp
        with step show ?thesis
          by (simp add: fs)
      qed
    qed
  qed
qed

lemma mismatches_swap:
  "mismatches s a (zip xs ys) = mismatches a s (zip ys xs)"
proof (induction xs arbitrary: ys)
  case Nil
  show ?case by simp
next
  case (Cons x xs)
  show ?case
  proof (cases ys)
    case Nil
    then show ?thesis by simp
  next
    case (Cons y ys')
    with Cons.IH [of ys'] show ?thesis
      by (simp add: mismatches_Cons genesMatch_sym [of "a ! x" "s ! y"])
  qed
qed

lemma transLoop_swap:
  "transLoop s a sflags aflags sl al 0 0 0 = transLoop a s aflags sflags al sl 0 0 0"
  by (simp add: transLoop_count mismatches_swap)

lemma prefixLoop_swap:
  "prefixLoop s a n i k = prefixLoop a s n i k"
proof (induction s a n i k rule: prefixLoop.induct)
  case (1 s a n i k)
  have L: "prefixLoop s a n i k =
      (if i < n then (if genesMatch (s ! i) (a ! i) then prefixLoop s a n (Suc i) (k + 1) else k)
       else k)"
    by (rule prefixLoop.simps)
  have R: "prefixLoop a s n i k =
      (if i < n then (if genesMatch (a ! i) (s ! i) then prefixLoop a s n (Suc i) (k + 1) else k)
       else k)"
    by (rule prefixLoop.simps)
  show ?case
  proof (cases "i < n \<and> genesMatch (s ! i) (a ! i)")
    case True
    then have "genesMatch (a ! i) (s ! i)" by (simp add: genesMatch_sym)
    with True "1.IH" L R show ?thesis by simp
  next
    case False
    then have "\<not> (i < n \<and> genesMatch (a ! i) (s ! i))" by (simp add: genesMatch_sym)
    with False L R show ?thesis by auto
  qed
qed

lemma jaro_winkler_distance_swap:
  "jaro_winkler_distance g1 g2 = jaro_winkler_distance g2 g1"
proof -
  let ?sl = "min maxNumGenesToCompare (length g1)"
  let ?al = "min maxNumGenesToCompare (length g2)"
  let ?rng = "max ?sl ?al div 2 - 1"
  have rng: "max ?al ?sl div 2 - 1 = ?rng" by (simp add: max.commute)
  obtain sflags aflags m where
    r: "matchLoop g1 g2 ?sl ?al ?rng 0 (replicate ?sl 0, replicate ?al 0, 0) = (sflags, aflags, m)"
    by (cases "matchLoop g1 g2 ?sl ?al ?rng 0 (replicate ?sl 0, replicate ?al 0, 0)")
  from matchLoop_swap [OF r]
  have r': "matchLoop g2 g1 ?al ?sl ?rng 0 (replicate ?al 0, replicate ?sl 0, 0)
      = (aflags, sflags, m)" .
  have t: "transLoop g1 g2 sflags aflags ?sl ?al 0 0 0 = transLoop g2 g1 aflags sflags ?al ?sl 0 0 0"
    by (rule transLoop_swap)
  have p: "prefixLoop g1 g2 (min maxPrefixLength (min ?sl ?al)) 0 0
      = prefixLoop g2 g1 (min maxPrefixLength (min ?al ?sl)) 0 0"
    by (simp add: prefixLoop_swap min.commute)
  have a0: "(?sl = 0 \<or> ?al = 0) = (?al = 0 \<or> ?sl = 0)" by (rule disj_commute)
  show ?thesis
  proof (cases "?sl = 0 \<or> ?al = 0")
    case True
    then have c': "?al = 0 \<or> ?sl = 0" unfolding a0 .
    show ?thesis
      unfolding jaro_winkler_distance_unfold Let_def
      by (simp only: True c' if_True)
  next
    case False
    then have c': "\<not> (?al = 0 \<or> ?sl = 0)" unfolding a0 .
    show ?thesis
    proof (cases "m = 0")
      case True
      show ?thesis
        unfolding jaro_winkler_distance_unfold Let_def rng r r' prod.case
        by (simp only: False c' True if_True if_False simp_thms)
    next
      case m: False
      show ?thesis
        unfolding jaro_winkler_distance_unfold Let_def rng r r' prod.case t p
        by (simp only: False c' m if_False add.commute [of "real m / real ?sl"])
    qed
  qed
qed

section \<open>Symmetry\<close>

lemma differingBits_swap: "differingBits raw g1 g2 = differingBits raw g2 g1"
proof (induction g1 arbitrary: g2)
  case Nil
  show ?case by (simp add: differingBits_def)
next
  case (Cons x xs)
  show ?case
  proof (cases g2)
    case Nil
    then show ?thesis by (simp add: differingBits_def)
  next
    case (Cons y ys)
    have "differingBits raw (x # xs) (y # ys) = popcount (raw x XOR raw y) + differingBits raw xs ys"
      by (simp add: differingBits_def)
    moreover have "differingBits raw (y # ys) (x # xs) = popcount (raw y XOR raw x) + differingBits raw ys xs"
      by (simp add: differingBits_def)
    moreover have "raw x XOR raw y = raw y XOR raw x" by (rule xor.commute)
    ultimately show ?thesis using Cons.IH [of ys] Cons by simp
  qed
qed

lemma identicalCount_swap: "identicalCount raw g1 g2 = identicalCount raw g2 g1"
proof (induction g1 arbitrary: g2)
  case Nil
  show ?case by (simp add: identicalCount_def)
next
  case (Cons x xs)
  show ?case
  proof (cases g2)
    case Nil
    then show ?thesis by (simp add: identicalCount_def)
  next
    case (Cons y ys)
    have "identicalCount raw (x # xs) (y # ys)
        = (if raw x = raw y then 1 else 0) + identicalCount raw xs ys"
      by (simp add: identicalCount_def)
    moreover have "identicalCount raw (y # ys) (x # xs)
        = (if raw y = raw x then 1 else 0) + identicalCount raw ys xs"
      by (simp add: identicalCount_def)
    moreover have "(raw x = raw y) = (raw y = raw x)" by (rule eq_commute)
    ultimately show ?thesis using Cons.IH [of ys] Cons by simp
  qed
qed

text \<open>
  Claim C5 (symmetry): the similarity of two genomes does not depend on their order, for
  every method and for equal as for different lengths. For the approximate metric this rests
  on the stable set of pairs being the same whichever genome drives the matching phase.
\<close>

theorem genomeSimilarity_symmetric:
  "genomeSimilarity raw method g1 g2 = genomeSimilarity raw method g2 g1"
proof (cases "length g1 = length g2")
  case True
  then have len: "length g2 = length g1" by simp
  have jw: "jaro_winkler_distance g1 g2 = jaro_winkler_distance g2 g1"
    by (rule jaro_winkler_distance_swap)
  have lbits: "lengthBits g1 = lengthBits g2" and lbytes: "lengthBytes g1 = lengthBytes g2"
    using True by (simp_all add: lengthBits_def lengthBytes_def numElements_def)
  have bits: "hammingDistanceBits raw g1 g2 = hammingDistanceBits raw g2 g1"
    by (simp only: hammingDistanceBits_eq [OF True] hammingDistanceBits_eq [OF len]
        differingBits_swap [of raw g1 g2] lbits)
  have bytes: "hammingDistanceBytes raw g1 g2 = hammingDistanceBytes raw g2 g1"
    by (simp only: hammingDistanceBytes_eq [OF True] hammingDistanceBytes_eq [OF len]
        identicalCount_swap [of raw g1 g2] lbytes)
  from True jw bits bytes show ?thesis
    by (simp add: genomeSimilarity_unfold)
next
  case False
  then have ne: "length g2 \<noteq> length g1" by simp
  have jw: "jaro_winkler_distance g1 g2 = jaro_winkler_distance g2 g1"
    by (rule jaro_winkler_distance_swap)
  from False ne show ?thesis
    unfolding genomeSimilarity_unfold Let_def jw
    by (simp add: min.commute max.commute)
qed

section \<open>Identity\<close>

text \<open>
  For a genome compared with itself the pairs \<open>(i, i)\<close> form a stable set, hence the one the
  matching phase computes: every position is flagged and nothing is transposed.
\<close>

lemma diagonal_stable:
  "stableUpto g g n n rng n (Id_on {..<n})"
  unfolding stableUpto_def
proof (intro conjI allI impI)
  fix i j assume "(i, j) \<in> Id_on {..<n}"
  then show "i < n" by (simp add: Id_on_iff)
next
  fix i j assume "(i, j) \<in> Id_on {..<n}"
  then have "i = j" "i < n" by (simp_all add: Id_on_iff)
  then show "cand g g n n rng i j" by (simp add: cand_def genesMatch_refl)
next
  show "single_valued (Id_on {..<n})" by (rule single_valued_Id_on)
next
  show "single_valued ((Id_on {..<n})\<inverse>)" by (simp only: converse_Id_on single_valued_Id_on)
next
  fix i j assume a: "i < n \<and> cand g g n n rng i j"
  then have j: "j < n" by (simp add: cand_def)
  consider "j = i" | "j < i" | "i < j" by linarith
  then show "(i, j) \<in> Id_on {..<n} \<or> (\<exists>i'<i. (i', j) \<in> Id_on {..<n})
      \<or> (\<exists>j'<j. (i, j') \<in> Id_on {..<n})"
  proof cases
    case 1
    with a have "(i, j) \<in> Id_on {..<n}" by (simp add: Id_on_iff)
    then show ?thesis by (rule disjI1)
  next
    case 2
    with j have "j < i \<and> (j, j) \<in> Id_on {..<n}" by (simp add: Id_on_iff)
    then have "\<exists>i'<i. (i', j) \<in> Id_on {..<n}" by (rule exI)
    then show ?thesis by (intro disjI2 disjI1)
  next
    case 3
    with a have "i < j \<and> (i, i) \<in> Id_on {..<n}" by (simp add: Id_on_iff)
    then have "\<exists>j'<j. (i, j') \<in> Id_on {..<n}" by (rule exI)
    then show ?thesis by (intro disjI2)
  qed
qed

lemma flagsOf_full: "flagsOf n {..<n} = replicate n 1"
  by (rule nth_equalityI) (simp_all add: flagsOf_def)

lemma card_Id_on_lessThan: "card (Id_on {..<n}) = n"
proof -
  have "Id_on {..<n} = (\<lambda>i. (i, i)) ` {..<n}" by (auto simp: Id_on_iff)
  moreover have "inj_on (\<lambda>i. (i, i)) {..<n}" by (simp add: inj_on_def)
  ultimately show ?thesis by (simp add: card_image)
qed

lemma matchLoop_same:
  "matchLoop g g n n rng 0 (replicate n 0, replicate n 0, 0) = (replicate n 1, replicate n 1, n)"
proof -
  obtain sf af m where r: "matchLoop g g n n rng 0 (replicate n 0, replicate n 0, 0) = (sf, af, m)"
    by (cases "matchLoop g g n n rng 0 (replicate n 0, replicate n 0, 0)")
  obtain M where M: "matchInv g g n n rng n M (sf, af, m)"
    using matchLoop_stable [of g g n n rng] r by auto
  then have "stableUpto g g n n rng n M" by (simp add: matchInv_def)
  then have eq: "M = Id_on {..<n}" using diagonal_stable by (rule stable_unique)
  from M have "sf = flagsOf n (Range M)" "af = flagsOf n (Domain M)" "m = card M"
    by (simp_all add: matchInv_def)
  then have "sf = replicate n 1" "af = replicate n 1" "m = n"
    unfolding eq by (simp_all add: flagsOf_full card_Id_on_lessThan)
  with r show ?thesis by simp
qed

lemma flagged_all: "flagged (replicate n 1) 0 n = [0..<n]"
  by (simp add: flagged_def filter_id_conv)

lemma mismatches_diag: "mismatches g g (zip xs xs) = 0"
  by (induction xs) (simp_all add: mismatches_Cons genesMatch_refl)

lemma transLoop_same: "transLoop g g (replicate n 1) (replicate n 1) n n 0 0 0 = 0"
  by (simp add: transLoop_count flagged_all mismatches_diag)

lemma jaro_winkler_distance_same:
  assumes "g \<noteq> []"
  shows "jaro_winkler_distance g g = 1"
proof -
  let ?n = "min maxNumGenesToCompare (length g)"
  from assms have n: "?n \<noteq> 0" by (simp add: maxNumGenesToCompare_def)
  then have n': "\<not> (?n = 0 \<or> ?n = 0)" by simp
  have mx: "max ?n ?n = ?n" by simp
  have dw: "(real ?n / real ?n + real ?n / real ?n
      + real_of_int (int ?n - int (0 div 2)) / real ?n) / 3 = 1"
    using n by simp
  have "jaro_winkler_distance g g =
      min 1 (1 + winklerScaling
          * real (prefixLoop g g (min maxPrefixLength (min ?n ?n)) 0 0) * (1 - 1))"
    unfolding jaro_winkler_distance_unfold Let_def mx matchLoop_same prod.case transLoop_same
    by (simp only: n n' if_False dw simp_thms)
  then show ?thesis by simp
qed

lemma genomeSimilarity_same_approx:
  "g \<noteq> [] \<Longrightarrow> genomeSimilarity raw 0 g g = Inr (Fin 1)"
  by (simp add: genomeSimilarity_unfold jaro_winkler_distance_same)

lemma genomeSimilarity_same_bits:
  assumes "g \<noteq> []" and "length g < 2 ^ 27"
  shows "genomeSimilarity raw 1 g g = Inr (Fin 1)"
proof -
  from assms have "real (totalBits g) \<noteq> 0"
    by (simp add: totalBits_def bitsPerGeneWord_def)
  then show ?thesis
    using assms(2)
    by (simp add: genomeSimilarity_unfold hammingDistanceBits_small differingBits_same
        fmin_def fsub_def)
qed

section \<open>Range\<close>

text \<open>
  The number of transpositions is at most the number of matches, and the prefix run is at
  most four genes long; so the approximate score is a number between 0 and 1.
\<close>

lemma mismatches_le: "mismatches s a ps \<le> length ps"
  unfolding mismatches_def by (rule length_filter_le)

lemma flagged_flagsOf:
  assumes "A \<subseteq> {..<n}"
  shows "length (flagged (flagsOf n A) 0 n) = card A"
proof -
  have eq: "filter (\<lambda>k. flagsOf n A ! k = 1) [0..<n] = filter (\<lambda>k. k \<in> A) [0..<n]"
    by (rule filter_cong) (simp_all add: flagsOf_nth)
  have "distinct (filter (\<lambda>k. k \<in> A) [0..<n])" by simp
  then have "length (filter (\<lambda>k. k \<in> A) [0..<n]) = card (set (filter (\<lambda>k. k \<in> A) [0..<n]))"
    by (rule distinct_card [symmetric])
  moreover from assms have "set (filter (\<lambda>k. k \<in> A) [0..<n]) = A" by auto
  ultimately show ?thesis by (simp add: flagged_def eq)
qed

lemma stableUpto_card_Domain:
  assumes "stableUpto s a sl al rng n M"
  shows "card (Domain M) = card M" and "Domain M \<subseteq> {..<al}"
proof -
  from assms have sv: "single_valued M" by (simp add: stableUpto_def)
  have "inj_on fst M"
  proof (rule inj_onI)
    fix p q assume pq: "p \<in> M" "q \<in> M" "fst p = fst q"
    obtain i j where p: "p = (i, j)" by (cases p)
    obtain i' j' where q: "q = (i', j')" by (cases q)
    from pq p q have "(i, j) \<in> M" "(i, j') \<in> M" by simp_all
    with sv have "j = j'" by (rule single_valuedD)
    with pq p q show "p = q" by simp
  qed
  then have "card (fst ` M) = card M" by (rule card_image)
  then show "card (Domain M) = card M" by (simp add: Domain_fst)
  show "Domain M \<subseteq> {..<al}"
  proof
    fix i assume "i \<in> Domain M"
    then obtain j where "(i, j) \<in> M" by blast
    with assms have "cand s a sl al rng i j" by (rule stableUpto_cand)
    then show "i \<in> {..<al}" by (simp add: cand_def)
  qed
qed

lemma transLoop_le_matches:
  assumes "matchLoop s a sl al rng 0 (replicate sl 0, replicate al 0, 0) = (sflags, aflags, m)"
  shows "transLoop s a sflags aflags sl al 0 0 0 \<le> m"
proof -
  from matchLoop_stable [of s a sl al rng] assms
  obtain M where M: "matchInv s a sl al rng al M (sflags, aflags, m)" by auto
  then have st: "stableUpto s a sl al rng al M" and af: "aflags = flagsOf al (Domain M)"
    and m: "m = card M"
    by (simp_all add: matchInv_def)
  have "transLoop s a sflags aflags sl al 0 0 0
      = mismatches s a (zip (flagged aflags 0 al) (flagged sflags 0 sl))"
    by (simp add: transLoop_count)
  also have "\<dots> \<le> length (zip (flagged aflags 0 al) (flagged sflags 0 sl))"
    by (rule mismatches_le)
  also have "\<dots> \<le> length (flagged aflags 0 al)" by simp
  also have "\<dots> = card (Domain M)"
    unfolding af using stableUpto_card_Domain(2) [OF st] by (rule flagged_flagsOf)
  also have "\<dots> = m" using stableUpto_card_Domain(1) [OF st] m by simp
  finally show ?thesis .
qed

lemma prefixLoop_le: "prefixLoop s a n i k \<le> k + (n - i)"
proof (induction s a n i k rule: prefixLoop.induct)
  case (1 s a n i k)
  show ?case
  proof (cases "i < n \<and> genesMatch (s ! i) (a ! i)")
    case True
    then have "prefixLoop s a n i k = prefixLoop s a n (Suc i) (k + 1)"
      by (subst prefixLoop.simps) simp
    moreover from "1.IH" True
    have "prefixLoop s a n (Suc i) (k + 1) \<le> (k + 1) + (n - Suc i)" by simp
    ultimately show ?thesis using True by linarith
  next
    case False
    then have "prefixLoop s a n i k = k"
      by (subst prefixLoop.simps) auto
    then show ?thesis by simp
  qed
qed

lemma winkler_range:
  fixes dw :: real
  assumes "0 \<le> dw" and "p \<le> (4::nat)"
  shows "0 \<le> min 1 (dw + winklerScaling * real p * (1 - dw))"
proof -
  from assms(2) have p: "real p \<le> 4" by simp
  have "dw + winklerScaling * real p * (1 - dw) = dw * (1 - real p / 10) + real p / 10"
    by (simp add: winklerScaling_def field_simps)
  moreover from p have "0 \<le> 1 - real p / 10" by simp
  with assms(1) have "0 \<le> dw * (1 - real p / 10)" by (rule mult_nonneg_nonneg)
  ultimately have "0 \<le> dw + winklerScaling * real p * (1 - dw)" by simp
  then show ?thesis by simp
qed

lemma jaro_winkler_distance_range:
  "0 \<le> jaro_winkler_distance g1 g2 \<and> jaro_winkler_distance g1 g2 \<le> 1"
proof -
  let ?sl = "min maxNumGenesToCompare (length g1)"
  let ?al = "min maxNumGenesToCompare (length g2)"
  let ?rng = "max ?sl ?al div 2 - 1"
  obtain sflags aflags m where
    r: "matchLoop g1 g2 ?sl ?al ?rng 0 (replicate ?sl 0, replicate ?al 0, 0) = (sflags, aflags, m)"
    by (cases "matchLoop g1 g2 ?sl ?al ?rng 0 (replicate ?sl 0, replicate ?al 0, 0)")
  let ?t = "transLoop g1 g2 sflags aflags ?sl ?al 0 0 0 div 2"
  let ?dw = "(real m / real ?sl + real m / real ?al + real_of_int (int m - int ?t) / real m) / 3"
  let ?p = "prefixLoop g1 g2 (min maxPrefixLength (min ?sl ?al)) 0 0"
  have t: "?t \<le> m" using transLoop_le_matches [OF r] by simp
  then have "0 \<le> real_of_int (int m - int ?t)" by simp
  then have dw: "0 \<le> ?dw" by simp
  have "?p \<le> 0 + (min maxPrefixLength (min ?sl ?al) - 0)" by (rule prefixLoop_le)
  then have p: "?p \<le> 4" by (simp add: maxPrefixLength_def)
  have val: "jaro_winkler_distance g1 g2 =
       (if ?sl = 0 \<or> ?al = 0 then 0
        else if m = 0 then 0
        else min 1 (?dw + winklerScaling * real ?p * (1 - ?dw)))"
    unfolding jaro_winkler_distance_unfold Let_def r prod.case ..
  have v: "jaro_winkler_distance g1 g2 = 0
      \<or> jaro_winkler_distance g1 g2 = min 1 (?dw + winklerScaling * real ?p * (1 - ?dw))"
  proof (cases "?sl = 0 \<or> ?al = 0")
    case True
    have "jaro_winkler_distance g1 g2 = 0"
      unfolding val by (simp only: True if_True)
    then show ?thesis ..
  next
    case False
    show ?thesis
    proof (cases "m = 0")
      case True
      have "jaro_winkler_distance g1 g2 = 0"
        unfolding val by (simp only: False True if_True if_False simp_thms)
      then show ?thesis ..
    next
      case m: False
      have "jaro_winkler_distance g1 g2 = min 1 (?dw + winklerScaling * real ?p * (1 - ?dw))"
        unfolding val by (simp only: False m if_False)
      then show ?thesis ..
    qed
  qed
  from v show ?thesis
  proof
    assume "jaro_winkler_distance g1 g2 = 0"
    then show ?thesis by simp
  next
    assume "jaro_winkler_distance g1 g2 = min 1 (?dw + winklerScaling * real ?p * (1 - ?dw))"
    moreover note winkler_range [OF dw p]
    moreover have "x = min 1 y \<Longrightarrow> 0 \<le> min 1 y \<Longrightarrow> 0 \<le> x \<and> x \<le> 1" for x y :: real
      by simp
    ultimately show ?thesis by blast
  qed
qed

lemma blend_range:
  fixes j r :: real
  assumes "0 \<le> j" "j \<le> 1" "0 \<le> r" "r \<le> 1"
  shows "0 \<le> j * (8 / 10) + r * (2 / 10) \<and> j * (8 / 10) + r * (2 / 10) \<le> 1"
  using assms by simp

lemma bits_range:
  "\<exists>x. fsub (Fin 1) (fmin (Fin 1) (fdiv (Fin (2 * real d)) (Fin (real n)))) = Fin x
       \<and> 0 \<le> x \<and> x \<le> 1"
proof (cases "n = 0")
  case False
  then have "fsub (Fin 1) (fmin (Fin 1) (fdiv (Fin (2 * real d)) (Fin (real n))))
      = Fin (1 - min 1 (2 * real d / real n))"
    by (simp add: fmin_def fsub_def min_def)
  moreover have "0 \<le> 2 * real d / real n" by simp
  then have "0 \<le> 1 - min 1 (2 * real d / real n) \<and> 1 - min 1 (2 * real d / real n) \<le> 1"
    by simp
  ultimately show ?thesis by blast
next
  case True
  show ?thesis
  proof (cases "d = 0")
    case True
    with \<open>n = 0\<close> show ?thesis by (simp add: fmin_def fsub_def)
  next
    case False
    with \<open>n = 0\<close> show ?thesis by (simp add: fmin_def fsub_def)
  qed
qed

lemma genomeSimilarity_range:
  assumes m: "method \<le> 2"
    and ne: "method = 2 \<Longrightarrow> length g1 = length g2 \<Longrightarrow> g1 \<noteq> [] \<and> length g1 < 2 ^ 30"
  shows "\<exists>x. genomeSimilarity raw method g1 g2 = Inr (Fin x) \<and> 0 \<le> x \<and> x \<le> 1"
proof (cases "length g1 = length g2")
  case False
  let ?r = "real (min (length g1) (length g2)) / real (max (length g1) (length g2))"
  from False have v: "genomeSimilarity raw method g1 g2 =
      Inr (Fin (jaro_winkler_distance g1 g2 * (8 / 10) + ?r * (2 / 10)))"
    by (simp add: genomeSimilarity_unfold Let_def min_def max_def)
  from False have "0 < max (length g1) (length g2)" by auto
  then have r: "0 \<le> ?r" "?r \<le> 1" by simp_all
  from jaro_winkler_distance_range [of g1 g2] r
  have "0 \<le> jaro_winkler_distance g1 g2 * (8 / 10) + ?r * (2 / 10)
      \<and> jaro_winkler_distance g1 g2 * (8 / 10) + ?r * (2 / 10) \<le> 1"
    by (intro blend_range) simp_all
  with v show ?thesis by blast
next
  case True
  from m consider "method = 0" | "method = 1" | "method = 2" by linarith
  then show ?thesis
  proof cases
    case 1
    with True have "genomeSimilarity raw method g1 g2 = Inr (Fin (jaro_winkler_distance g1 g2))"
      by (simp add: genomeSimilarity_unfold)
    with jaro_winkler_distance_range [of g1 g2] show ?thesis by blast
  next
    case 2
    with True have "genomeSimilarity raw method g1 g2 =
        Inr (fsub (Fin 1) (fmin (Fin 1)
          (fdiv (Fin (2 * real (differingBits raw g1 g2 mod 2 ^ 32)))
                (Fin (real (lengthBits g1))))))"
      by (simp add: genomeSimilarity_unfold hammingDistanceBits_eq del: fdiv.simps)
    with bits_range [of "differingBits raw g1 g2 mod 2 ^ 32" "lengthBits g1"]
    show ?thesis by auto
  next
    case 3
    with ne True have n: "0 < length g1" and small: "length g1 < 2 ^ 30" by auto
    let ?c = "identicalCount raw g1 g2"
    from 3 True n small have v: "genomeSimilarity raw method g1 g2
        = Inr (Fin (real ?c / real (length g1 * 4)))"
      by (simp add: genomeSimilarity_unfold hammingDistanceBytes_small)
    have "real ?c \<le> real (length g1)" using identicalCount_le [of raw g1 g2] by simp
    with n have "real ?c / real (length g1 * 4) \<le> 1" by (simp add: field_simps)
    moreover have "0 \<le> real ?c / real (length g1 * 4)" by simp
    ultimately show ?thesis using v by blast
  qed
qed

section \<open>The word-level metric\<close>

text \<open>
  At \<open>2 ^ 30\<close> genes the length in bytes wraps to 0, and the quotient of a genome with itself
  is an infinity; at one gene more the length in bytes is 4, and four identical words give
  the quotient 1.
\<close>

lemma genomeSimilarity_wordlevel_wrap:
  assumes "length g = 2 ^ 30"
  shows "genomeSimilarity raw 2 g g = Inr PInf"
proof -
  have "lengthBytes g = 0"
    by (simp add: lengthBytes_def numElements_def bytesPerElement_def assms)
  moreover have "identicalCount raw g g mod 2 ^ 32 = 2 ^ 30"
    by (simp add: identicalCount_same assms)
  ultimately show ?thesis
    by (simp add: genomeSimilarity_unfold hammingDistanceBytes_eq)
qed

lemma identicalCount_replicate_other:
  "raw a \<noteq> raw b \<Longrightarrow> identicalCount raw (replicate n a) (replicate n b) = 0"
  by (induction n) (simp_all add: identicalCount_def)

lemma identicalCount_append:
  "length xs = length ys \<Longrightarrow>
   identicalCount raw (xs @ xs') (ys @ ys') = identicalCount raw xs ys + identicalCount raw xs' ys'"
  by (simp add: identicalCount_def)

lemma genomeSimilarity_wordlevel_wrap_one:
  assumes "raw a \<noteq> raw b"
  shows "genomeSimilarity raw 2 (replicate 4 a @ replicate (2 ^ 30 - 3) a)
           (replicate 4 a @ replicate (2 ^ 30 - 3) b) = Inr (Fin 1)"
proof -
  let ?g1 = "replicate 4 a @ replicate (2 ^ 30 - 3) a"
  let ?g2 = "replicate 4 a @ replicate (2 ^ 30 - 3) b"
  have len: "length ?g1 = length ?g2" by simp
  have "length ?g1 = 2 ^ 30 + 1" by simp
  then have lb: "lengthBytes ?g1 = 4"
    by (simp add: lengthBytes_def numElements_def bytesPerElement_def)
  have "identicalCount raw ?g1 ?g2 = 4"
    using assms
    by (simp add: identicalCount_append identicalCount_same identicalCount_replicate_other)
  then have ic: "identicalCount raw ?g1 ?g2 mod 2 ^ 32 = 4" by simp
  show ?thesis
    unfolding genomeSimilarity_unfold hammingDistanceBytes_eq [OF len] ic lb
    by simp
qed

lemma packGene_geneB: "packGene geneA \<noteq> packGene geneB"
  by (simp add: packGene_def geneA_def geneB_def)

text \<open>
  Claim C1 (identity): a non-empty genome compared with itself scores 1.0 under each of the
  three methods. Under method 0 it does (\<open>genomeSimilarity_same_approx\<close>), and under method 1
  for fewer than \<open>2 ^ 27\<close> genes (\<open>genomeSimilarity_same_bits\<close>). Under method 2 the program does
  not: the number of identical gene words is divided by the length of the buffer in bytes,
  four for each gene, so a genome of one gene compared with itself scores one quarter, as
  every non-empty genome of fewer than \<open>2 ^ 30\<close> genes does
  (\<open>genomeSimilarity_wordlevel_same\<close>).
\<close>

theorem identity_wordlevel_quarter:
  "genomeSimilarity packGene 2 [geneA] [geneA] = Inr (Fin (1 / 4))"
  by (simp add: genomeSimilarity_unfold hammingDistanceBytes_small identicalCount_same)

text \<open>
  Claim C2 (word-level result): under method 2 the result of two genomes of equal length is
  \<open>identicalCount / numGenes\<close>. The program divides by \<open>numGenes * 4\<close>: of the two genes of
  the genomes below one is identical, the quotient of the claim is one half, and the program
  returns one eighth.
\<close>

theorem wordlevel_divides_by_bytes:
  "genomeSimilarity packGene 2 [geneA, geneB] [geneA, geneA] = Inr (Fin (1 / 8))
   \<and> real (identicalCount packGene [geneA, geneB] [geneA, geneA])
       / real (length [geneA, geneB]) = 1 / 2"
  by (simp add: genomeSimilarity_unfold hammingDistanceBytes_small identicalCount_def
      packGene_def geneA_def geneB_def)

text \<open>
  Claim C9 (word-level bound) as stated covers non-empty genomes of every size. The length
  in bytes is computed in 32 bits: a genome of \<open>2 ^ 30\<close> genes compared with itself scores an
  infinity, and two genomes of \<open>2 ^ 30 + 1\<close> genes with four identical words score 1.0.
\<close>

theorem wordlevel_wraps_above_quarter:
  "replicate (2 ^ 30) geneA \<noteq> []
   \<and> genomeSimilarity packGene 2 (replicate (2 ^ 30) geneA) (replicate (2 ^ 30) geneA)
       = Inr PInf
   \<and> length (replicate 4 geneA @ replicate (2 ^ 30 - 3) geneA)
       = length (replicate 4 geneA @ replicate (2 ^ 30 - 3) geneB)
   \<and> genomeSimilarity packGene 2 (replicate 4 geneA @ replicate (2 ^ 30 - 3) geneA)
         (replicate 4 geneA @ replicate (2 ^ 30 - 3) geneB)
       = Inr (Fin 1)"
proof -
  have "replicate (2 ^ 30) geneA \<noteq> []" by (simp add: replicate_empty)
  moreover have "genomeSimilarity packGene 2 (replicate (2 ^ 30) geneA)
      (replicate (2 ^ 30) geneA) = Inr PInf"
    by (rule genomeSimilarity_wordlevel_wrap) simp
  moreover have "length (replicate 4 geneA @ replicate (2 ^ 30 - 3) geneA)
       = length (replicate 4 geneA @ replicate (2 ^ 30 - 3) geneB)" by simp
  moreover note genomeSimilarity_wordlevel_wrap_one [OF packGene_geneB]
  ultimately show ?thesis by blast
qed

text \<open>
  Claim C9 (word-level bound), as amended: for non-empty genomes of equal length and of
  fewer than \<open>2 ^ 30\<close> genes the result of method 2 is at most one quarter, since each gene
  adds at most one to the numerator and four to the denominator; in particular it is never
  1.0.
\<close>

theorem wordlevel_at_most_quarter:
  assumes "g1 \<noteq> []" and "length g1 = length g2" and "length g1 < 2 ^ 30"
  shows "\<exists>x. genomeSimilarity raw 2 g1 g2 = Inr (Fin x) \<and> 0 \<le> x \<and> x \<le> 1 / 4 \<and> x \<noteq> 1"
proof -
  let ?c = "identicalCount raw g1 g2" and ?n = "length g1"
  from assms have n: "0 < ?n" and g2: "g2 \<noteq> []" by auto
  have h: "genomeSimilarity raw 2 g1 g2 = Inr (Fin (real ?c / real (?n * 4)))"
    using assms n g2 by (simp add: genomeSimilarity_unfold hammingDistanceBytes_small)
  have "real ?c \<le> real ?n" using identicalCount_le [of raw g1 g2] by simp
  with n have le: "real ?c / real (?n * 4) \<le> 1 / 4"
    by (simp add: field_simps)
  then have ne: "real ?c / real (?n * 4) \<noteq> 1" by linarith
  have ge: "0 \<le> real ?c / real (?n * 4)" by simp
  from h le ne ge show ?thesis by blast
qed

theorem wordlevel_at_most_quarter_witness:
  "[geneA, geneB] \<noteq> [] \<and> length [geneA, geneB] = length [geneA, geneA]
   \<and> length [geneA, geneB] < 2 ^ 30
   \<and> (\<exists>x. genomeSimilarity packGene 2 [geneA, geneB] [geneA, geneA] = Inr (Fin x)
        \<and> 0 \<le> x \<and> x \<le> 1 / 4 \<and> x \<noteq> 1)"
  using wordlevel_at_most_quarter [of "[geneA, geneB]" "[geneA, geneA]" packGene] by simp

section \<open>Empty genomes\<close>

text \<open>
  Claim C10 (unguarded divisions): for two empty genomes both exact metrics divide by zero,
  and the call of \<open>genomeSimilarity\<close> reaches that division. Under method 1 the call performs
  one division, of 0 by \<open>lengthBits = 0\<close>, and returns 0.0, since \<^verbatim>\<open>std::min\<close> replaces the NaN
  by its first argument; under method 2 it performs one division, of 0 by \<open>lengthBytes = 0\<close>,
  and returns the NaN; under method 0 it returns 0.0 through the guard of the approximate
  metric, without any division.
\<close>

theorem empty_genomes_divide_by_zero:
  "genomeSimilarity_run raw 1 [] [] = Inr (Fin 0, [(0, real (lengthBits []))])
   \<and> genomeSimilarity_run raw 2 [] [] = Inr (NaN, [(0, real (lengthBytes []))])
   \<and> genomeSimilarity_run raw 0 [] [] = Inr (Fin 0, [])
   \<and> lengthBits [] = 0 \<and> lengthBytes [] = 0"
  by (simp add: genomeSimilarity_run_def hammingDistanceBits_eq hammingDistanceBytes_eq
      differingBits_def identicalCount_def lengthBits_def lengthBytes_def numElements_def
      jaro_winkler_distance_run_def fmin_def fsub_def)

text \<open>
  Claim C3 (range): the similarity of every pair of genomes lies in the closed interval from
  0 to 1, under each method. For two empty genomes under method 2 the program returns a NaN,
  which is no number of that interval. Under the methods 0 and 1, and under method 2 for
  non-empty genomes of fewer than \<open>2 ^ 30\<close> genes, the result is a number of the interval
  (\<open>genomeSimilarity_range\<close>).
\<close>

theorem empty_wordlevel_not_in_range:
  "genomeSimilarity packGene 2 [] [] = Inr NaN
   \<and> \<not> (\<exists>x. genomeSimilarity packGene 2 [] [] = Inr (Fin x) \<and> 0 \<le> x \<and> x \<le> 1)"
  by (simp add: genomeSimilarity_unfold hammingDistanceBytes_small identicalCount_def)

section \<open>The dispatcher\<close>



text \<open>
  Claim C8 (invalid method): for genomes of equal length and a method other than 0, 1 and 2
  the dispatcher fails with \<open>InvalidConfiguration\<close> and returns no score.
\<close>

theorem invalid_method_fails:
  assumes "length g1 = length g2" and "method \<notin> {0, 1, 2}"
  shows "genomeSimilarity raw method g1 g2 = Inl InvalidConfiguration"
  using assms by (simp add: genomeSimilarity_unfold)

theorem invalid_method_fails_witness:
  "length [geneA] = length [geneB] \<and> (3::nat) \<notin> {0, 1, 2}
   \<and> genomeSimilarity packGene 3 [geneA] [geneB] = Inl InvalidConfiguration"
  using invalid_method_fails [of "[geneA]" "[geneB]" 3 packGene] by simp

section \<open>The bit-level metric\<close>

text \<open>
  At \<open>2 ^ 27\<close> genes the length in bits wraps to 0: a genome of that size compared with
  itself has no differing bit, the quotient is \<open>0 / 0\<close>, and the score is 0.0.
\<close>

lemma genomeSimilarity_bitlevel_wrap:
  assumes "length g = 2 ^ 27"
  shows "genomeSimilarity raw 1 g g = Inr (Fin 0)"
proof -
  have "lengthBits g = 0"
    by (simp add: lengthBits_def lengthBytes_def numElements_def bytesPerElement_def assms)
  then show ?thesis
    by (simp add: genomeSimilarity_unfold hammingDistanceBits_eq differingBits_same
        fmin_def fsub_def)
qed

text \<open>
  Claim C7 (bit-level result) as stated covers every pair of genomes of equal length. The
  pair of empty genomes is identical, and the program scores it 0.0, not 1.0; so it does a
  genome of \<open>2 ^ 27\<close> genes compared with itself, for which the length in bits wraps to 0.
\<close>

theorem bitlevel_empty_identical_zero:
  "genomeSimilarity packGene 1 [] [] = Inr (Fin 0)
   \<and> genomeSimilarity packGene 1 [] [] \<noteq> Inr (Fin 1)
   \<and> replicate (2 ^ 27) geneA \<noteq> []
   \<and> genomeSimilarity packGene 1 (replicate (2 ^ 27) geneA) (replicate (2 ^ 27) geneA)
       = Inr (Fin 0)"
proof -
  have "genomeSimilarity packGene 1 [] [] = Inr (Fin 0)"
    by (simp add: genomeSimilarity_unfold hammingDistanceBits_small differingBits_def
        totalBits_def fmin_def fsub_def)
  moreover have "replicate (2 ^ 27) geneA \<noteq> []" by (simp add: replicate_empty)
  moreover have "genomeSimilarity packGene 1 (replicate (2 ^ 27) geneA)
      (replicate (2 ^ 27) geneA) = Inr (Fin 0)"
    by (rule genomeSimilarity_bitlevel_wrap) simp
  ultimately show ?thesis by simp
qed

text \<open>
  Claim C7 (bit-level result), as amended: for non-empty genomes of equal length and of
  fewer than \<open>2 ^ 27\<close> genes the result of method 1 is
  \<open>1 - min(1, 2 * differingBits / totalBits)\<close>; such a genome compared with itself scores 1.0,
  and two such genomes whose words differ in every bit score 0.0.
\<close>

theorem bitlevel_formula:
  assumes "g1 \<noteq> []" and "length g1 = length g2" and "length g1 < 2 ^ 27"
  shows "genomeSimilarity raw 1 g1 g2 =
           Inr (Fin (1 - min 1 (2 * real (differingBits raw g1 g2) / real (totalBits g1))))
         \<and> (g2 = g1 \<longrightarrow> genomeSimilarity raw 1 g1 g2 = Inr (Fin 1))
         \<and> ((\<forall>k<length g1. raw (g2 ! k) = NOT (raw (g1 ! k)))
              \<longrightarrow> genomeSimilarity raw 1 g1 g2 = Inr (Fin 0))"
proof -
  from assms have n: "0 < length g1" and g2: "g2 \<noteq> []" by auto
  then have tb: "real (totalBits g1) \<noteq> 0"
    by (simp add: totalBits_def bitsPerGeneWord_def)
  have f: "genomeSimilarity raw 1 g1 g2 =
           Inr (Fin (1 - min 1 (2 * real (differingBits raw g1 g2) / real (totalBits g1))))"
    using assms tb g2
    by (simp add: genomeSimilarity_unfold hammingDistanceBits_small fmin_def fsub_def min_def)
  have same: "genomeSimilarity raw 1 g1 g2 = Inr (Fin 1)" if "g2 = g1"
    using f that by (simp add: differingBits_same)
  have compl: "genomeSimilarity raw 1 g1 g2 = Inr (Fin 0)"
    if "\<forall>k<length g1. raw (g2 ! k) = NOT (raw (g1 ! k))"
  proof -
    have "differingBits raw g1 g2 = 32 * length g1"
      using assms(2) that by (rule differingBits_complement)
    with n show ?thesis using f
      by (simp add: totalBits_def bitsPerGeneWord_def)
  qed
  from f same compl show ?thesis by blast
qed

theorem bitlevel_formula_witness:
  "([geneA] \<noteq> [] \<and> length [geneA] = length [geneA] \<and> length [geneA] < 2 ^ 27
      \<and> [geneA] = [geneA]
      \<and> genomeSimilarity packGene 1 [geneA] [geneA] = Inr (Fin 1))
   \<and> ([geneA] \<noteq> [] \<and> length [geneA] = length [geneC] \<and> length [geneA] < 2 ^ 27
      \<and> packGene ([geneC] ! 0) = NOT (packGene ([geneA] ! 0))
      \<and> genomeSimilarity packGene 1 [geneA] [geneC] = Inr (Fin 0))"
proof -
  have a: "[geneA] \<noteq> []" by simp
  have b: "length [geneA] = length [geneA]" by simp
  have c: "length [geneA] = length [geneC]" by simp
  have s: "length [geneA] < 2 ^ 27" by simp
  have d: "\<forall>k<length [geneA]. packGene ([geneC] ! k) = NOT (packGene ([geneA] ! k))"
    by (simp add: packGene_geneC)
  from bitlevel_formula [OF a b s, of packGene]
  have e: "genomeSimilarity packGene 1 [geneA] [geneA] = Inr (Fin 1)" by blast
  from bitlevel_formula [OF a c s, of packGene] d
  have f: "genomeSimilarity packGene 1 [geneA] [geneC] = Inr (Fin 0)" by blast
  have g: "packGene ([geneC] ! 0) = NOT (packGene ([geneA] ! 0))"
    by (simp add: packGene_geneC)
  from a b c s e f g show ?thesis by blast
qed

section \<open>The diversity estimator\<close>

lemma length_draws: "length (fst (draws randomUint lo hi k rs)) = k"
proof (induction k arbitrary: rs)
  case 0
  show ?case by simp
next
  case (Suc k)
  obtain i rs' where d: "randomUint rs lo hi = (i, rs')"
    by (cases "randomUint rs lo hi")
  obtain js rs'' where ds: "draws randomUint lo hi k rs' = (js, rs'')"
    by (cases "draws randomUint lo hi k rs'")
  from Suc [of rs'] show ?case by (simp add: d ds)
qed

text \<open>
  The loop makes \<open>count\<close> draws from \<open>[1, population - 1]\<close>, adds one to \<open>numSamples\<close> for each
  and accumulates the similarity of the pair each draw selects.
\<close>

lemma diversityLoop_draws:
  "diversityLoop raw method population peeps randomUint count numSamples acc rs =
     (case accumulateSimilarity raw method peeps acc
             (fst (draws randomUint 1 (population - 1) count rs)) of
        Inl e \<Rightarrow> Inl e
      | Inr acc' \<Rightarrow>
          Inr (numSamples + count, acc', snd (draws randomUint 1 (population - 1) count rs)))"
proof (induction count arbitrary: numSamples acc rs)
  case 0
  show ?case by (subst diversityLoop.simps) simp
next
  case (Suc k)
  obtain i rs' where d: "randomUint rs 1 (population - 1) = (i, rs')"
    by (cases "randomUint rs 1 (population - 1)")
  obtain js rs'' where ds: "draws randomUint 1 (population - 1) k rs' = (js, rs'')"
    by (cases "draws randomUint 1 (population - 1) k rs'")
  show ?case
  proof (cases "genomeSimilarity raw method (peeps i) (peeps (i + 1))")
    case (Inl e)
    then show ?thesis
      by (subst diversityLoop.simps) (simp add: d ds del: One_nat_def split: sum.splits)
  next
    case (Inr x)
    then show ?thesis
      using Suc.IH [of "numSamples + 1" "fadd acc x" rs']
      by (subst diversityLoop.simps) (simp add: d ds del: One_nat_def split: sum.splits)
  qed
qed

text \<open>
  Claim C6 (diversity estimator): for a population of fewer than two the result is 0.0.
  Otherwise the function makes \<open>sampleBudget = min(1000, N)\<close> draws of an index from the closed
  interval \<open>[1, N - 1]\<close>, accumulates the similarity of the adjacent pair at each index drawn,
  and returns one minus the accumulated similarity divided by \<open>sampleBudget\<close>. A comparison
  that fails its assertion ends the run with that error. That the draws are uniform is the
  contract of the random source and is not part of the statement.
\<close>

theorem geneticDiversity_sampling:
  "(population < 2 \<longrightarrow>
      geneticDiversity raw method population peeps randomUint rs = Inr (Fin 0, rs))
   \<and> (2 \<le> population \<longrightarrow>
      geneticDiversity raw method population peeps randomUint rs =
        (case accumulateSimilarity raw method peeps (Fin 0)
                (fst (draws randomUint 1 (population - 1) (sampleBudget population) rs)) of
           Inl e \<Rightarrow> Inl e
         | Inr accumulatedSimilarity \<Rightarrow>
             Inr (fsub (Fin 1)
                    (fdiv accumulatedSimilarity (Fin (real (sampleBudget population)))),
                  snd (draws randomUint 1 (population - 1) (sampleBudget population) rs))))
   \<and> length (fst (draws randomUint 1 (population - 1) (sampleBudget population) rs))
       = min 1000 population"
  by (simp add: geneticDiversity_def diversityLoop_draws sampleBudget_def length_draws
      split: sum.splits)

theorem geneticDiversity_sampling_witness:
  "((1::nat) < 2
      \<and> geneticDiversity packGene 2 1 examplePeeps counterSource 0 = Inr (Fin 0, 0))
   \<and> ((2::nat) \<le> 3
      \<and> fst (draws counterSource 1 (3 - 1) (sampleBudget 3) 0) = [1, 2, 1]
      \<and> geneticDiversity packGene 2 3 examplePeeps counterSource 0 = Inr (Fin (53 / 60), 3))"
proof -
  have d: "draws counterSource 1 (3 - 1) (sampleBudget 3) 0 = ([1, 2, 1], 3)"
    by code_simp
  have e12: "genomeSimilarity packGene 2 [geneA, geneB] [geneA, geneA] = Inr (Fin (1 / 8))"
    by (simp add: genomeSimilarity_unfold hammingDistanceBytes_small identicalCount_def
        packGene_def geneA_def geneB_def)
  have "jaro_winkler_distance [geneA, geneA] [geneB] = 0"
    by code_simp
  then have e23: "genomeSimilarity packGene 2 [geneA, geneA] [geneB] = Inr (Fin (1 / 10))"
    by (simp add: genomeSimilarity_unfold)
  have a: "accumulateSimilarity packGene 2 examplePeeps (Fin 0) [1, 2, 1] = Inr (Fin (7 / 20))"
    by (simp add: examplePeeps_def e12 e23)
  have b: "real (sampleBudget 3) = 3"
    by (simp add: sampleBudget_def)
  from geneticDiversity_sampling [of 1 packGene 2 examplePeeps counterSource 0]
  have one: "geneticDiversity packGene 2 1 examplePeeps counterSource 0 = Inr (Fin 0, 0)"
    by simp
  have g: "(2::nat) \<le> 3" by simp
  from geneticDiversity_sampling [of 3 packGene 2 examplePeeps counterSource 0] g
  have "geneticDiversity packGene 2 3 examplePeeps counterSource 0 =
        (case accumulateSimilarity packGene 2 examplePeeps (Fin 0)
                (fst (draws counterSource 1 (3 - 1) (sampleBudget 3) 0)) of
           Inl e \<Rightarrow> Inl e
         | Inr accumulatedSimilarity \<Rightarrow>
             Inr (fsub (Fin 1) (fdiv accumulatedSimilarity (Fin (real (sampleBudget 3)))),
                  snd (draws counterSource 1 (3 - 1) (sampleBudget 3) 0)))"
    by blast
  then have three: "geneticDiversity packGene 2 3 examplePeeps counterSource 0
      = Inr (Fin (53 / 60), 3)"
    unfolding d fst_conv snd_conv a b by (simp add: fsub_def)
  from one three d show ?thesis by simp
qed

end
